theory Spec2Isabelle
  imports Complex_Main "HOL-Library.Multiset"
begin

section \<open>Data model\<close>

text \<open>
  The two tables of \<^verbatim>\<open>database.py\<close> that the fulfilment pipeline reads and writes.
  A table is the list of its rows in the store's scan order. Timestamps are integers
  (seconds); identifiers and names are strings over ASCII.
\<close>

type_synonym timestamp = int

record payment =
  payment_id :: string
  user_id :: int
  amount :: int
  currency :: string
  status :: string
  request_timestamp :: timestamp
  content_id :: "string option"

text \<open>
  A row of \<^verbatim>\<open>content_library\<close>. \<^verbatim>\<open>list_contents\<close> returns the same columns under the keys
  \<^verbatim>\<open>id, name, type, drive_id, uploaded_at\<close>; the embedding uses one record for both.
\<close>

record content =
  lib_content_id :: string
  content_name :: string
  file_type :: string
  google_drive_file_id :: string
  uploaded_at :: timestamp

datatype error =
    InitError | DbError | IntegrityError | DriveError | TelegramError
  | TypeError | ZeroDivisionError | NameError | SleepError

text \<open>What the messaging transport has accepted, in order.\<close>

datatype message =
    Video int string string
  | Document int string string
  | AdminNote string

text \<open>The lines \<^verbatim>\<open>check_and_process_deliveries\<close> writes to its logger, by payment id.\<close>

datatype log_line =
    LogProcessing string
  | LogDelivered string
  | LogFailed string
  | LogNoContent string
  | LogBatchError

text \<open>
  Every call that leaves the process. An environment says, for the \<open>n\<close>-th such call of a
  run, whether it raises; \<open>trace\<close> keeps the calls made so far, in order, each with
  whether the environment made it raise. The store is free in how it orders rows that an
  \<^verbatim>\<open>ORDER BY\<close> leaves tied: \<open>tie_rank n\<close> is the order it uses at the \<open>n\<close>-th call, rows of
  smaller rank first.
\<close>

datatype call =
    Initialize
  | CmInitialize
  | GetPendingPayments
  | GetPaymentDetails string
  | GetUserInfo int
  | GetContent string
  | ListContents
  | DriveMetadata string
  | DriveDownload string
  | SendVideo int
  | SendDocument int
  | LinkContent string string
  | NotifyAdmin
  | Sleep

type_synonym env = "nat \<Rightarrow> call \<Rightarrow> bool"

record world =
  payments :: "payment list"
  content_library :: "content list"
  tie_rank :: "nat \<Rightarrow> content \<Rightarrow> nat"
  initialized :: bool
  cm_initialized :: bool
  trace :: "(call \<times> bool) list"
  outbox :: "message list"
  log :: "log_line list"
  processed_count :: nat
  error_count :: nat

definition external :: "env \<Rightarrow> call \<Rightarrow> world \<Rightarrow> bool \<times> world" where
  "external env c w =
     (env (length (trace w)) c, w\<lparr>trace := trace w @ [(c, env (length (trace w)) c)]\<rparr>)"

section \<open>Strings as Python treats them\<close>

definition lower_char :: "char \<Rightarrow> char" where
  "lower_char c =
     (let n = (of_char c :: nat) in if 65 \<le> n \<and> n \<le> 90 then char_of (n + 32) else c)"

definition lower :: "string \<Rightarrow> string" where
  "lower s = map lower_char s"

definition isspace :: "char \<Rightarrow> bool" where
  "isspace c = ((of_char c :: nat) \<in> {9, 10, 11, 12, 13, 28, 29, 30, 31, 32})"

text \<open>\<^verbatim>\<open>str.split()\<close> without arguments: maximal runs of non-whitespace characters.\<close>

fun split_from :: "string \<Rightarrow> string \<Rightarrow> string list" where
  "split_from cur [] = (if cur = [] then [] else [cur])"
| "split_from cur (c # cs) =
     (if isspace c then (if cur = [] then split_from [] cs else cur # split_from [] cs)
      else split_from (cur @ [c]) cs)"

definition split :: "string \<Rightarrow> string list" where
  "split s = split_from [] s"

fun startswith :: "string \<Rightarrow> string \<Rightarrow> bool" where
  "startswith [] s = True"
| "startswith (a # as) [] = False"
| "startswith (a # as) (b # bs) = (a = b \<and> startswith as bs)"

text \<open>\<^verbatim>\<open>word in name\<close> on strings: \<open>word\<close> occurs as a contiguous substring.\<close>

fun contains :: "string \<Rightarrow> string \<Rightarrow> bool" where
  "contains word [] = (word = [])"
| "contains word (c # cs) = (startswith word (c # cs) \<or> contains word cs)"

section \<open>database.py\<close>

definition get_payment_details ::
  "env \<Rightarrow> string \<Rightarrow> world \<Rightarrow> (error + payment option) \<times> world" where
  "get_payment_details env pid w =
     (case external env (GetPaymentDetails pid) w of
        (True, w') \<Rightarrow> (Inl DbError, w')
      | (False, w') \<Rightarrow>
          (case filter (\<lambda>p. payment_id p = pid) (payments w') of
             [] \<Rightarrow> (Inr None, w')
           | p # _ \<Rightarrow> (Inr (Some p), w')))"

definition get_user_info :: "env \<Rightarrow> int \<Rightarrow> world \<Rightarrow> (error + unit) \<times> world" where
  "get_user_info env uid w =
     (case external env (GetUserInfo uid) w of
        (True, w') \<Rightarrow> (Inl DbError, w')
      | (False, w') \<Rightarrow> (Inr (), w'))"

definition get_content_from_cms_library ::
  "env \<Rightarrow> string \<Rightarrow> world \<Rightarrow> (error + content option) \<times> world" where
  "get_content_from_cms_library env cid w =
     (case external env (GetContent cid) w of
        (True, w') \<Rightarrow> (Inl DbError, w')
      | (False, w') \<Rightarrow>
          (case filter (\<lambda>c. lib_content_id c = cid) (content_library w') of
             [] \<Rightarrow> (Inr None, w')
           | c # _ \<Rightarrow> (Inr (Some c), w')))"

text \<open>
  The \<^verbatim>\<open>UPDATE\<close> of \<^verbatim>\<open>link_content_to_payment\<close>: both columns are set in one statement on
  every row with the payment id. The foreign key \<^verbatim>\<open>fk_content\<close> of \<^verbatim>\<open>init_db\<close> rejects the
  statement when a row would be given a content id that is not in \<^verbatim>\<open>content_library\<close>.
\<close>

definition mark_delivered :: "string \<Rightarrow> string \<Rightarrow> payment \<Rightarrow> payment" where
  "mark_delivered pid cid p =
     (if payment_id p = pid then p\<lparr>status := ''delivered'', content_id := Some cid\<rparr> else p)"

definition link_content_to_payment ::
  "env \<Rightarrow> string \<Rightarrow> string \<Rightarrow> world \<Rightarrow> (error + unit) \<times> world" where
  "link_content_to_payment env pid cid w =
     (case external env (LinkContent pid cid) w of
        (True, w') \<Rightarrow> (Inl DbError, w')
      | (False, w') \<Rightarrow>
          (if list_ex (\<lambda>p. payment_id p = pid) (payments w')
              \<and> \<not> list_ex (\<lambda>c. lib_content_id c = cid) (content_library w')
           then (Inl IntegrityError, w')
           else (Inr (), w'\<lparr>payments := map (mark_delivered pid cid) (payments w')\<rparr>)))"

text \<open>
  \<^verbatim>\<open>WHERE status = 'completed' AND content_id IS NULL ORDER BY request_timestamp ASC\<close>.
  Rows with equal timestamps keep their scan order.
\<close>

definition is_pending :: "payment \<Rightarrow> bool" where
  "is_pending p = (status p = ''completed'' \<and> content_id p = None)"

definition get_pending_payments_for_admin ::
  "env \<Rightarrow> world \<Rightarrow> (error + payment list) \<times> world" where
  "get_pending_payments_for_admin env w =
     (case external env GetPendingPayments w of
        (True, w') \<Rightarrow> (Inl DbError, w')
      | (False, w') \<Rightarrow>
          (Inr (sort_key request_timestamp (filter is_pending (payments w'))), w'))"

text \<open>The other writers of the \<^verbatim>\<open>payments\<close> table.\<close>

definition add_pending_payment ::
  "string \<Rightarrow> int \<Rightarrow> int \<Rightarrow> string \<Rightarrow> timestamp \<Rightarrow> world \<Rightarrow> (error + unit) \<times> world" where
  "add_pending_payment pid uid amt cur now w =
     (if list_ex (\<lambda>p. payment_id p = pid) (payments w) then (Inl IntegrityError, w)
      else (Inr (), w\<lparr>payments := payments w @
              [\<lparr>payment_id = pid, user_id = uid, amount = amt, currency = cur,
                status = ''pending'', request_timestamp = now, content_id = None\<rparr>]\<rparr>))"

definition update_payment_status :: "string \<Rightarrow> string \<Rightarrow> world \<Rightarrow> world" where
  "update_payment_status pid st w =
     w\<lparr>payments := map (\<lambda>p. if payment_id p = pid then p\<lparr>status := st\<rparr> else p) (payments w)\<rparr>"

text \<open>
  \<^verbatim>\<open>cleanup_expired_pending_payments\<close>; the generated column \<^verbatim>\<open>expiry_timestamp\<close> is
  \<^verbatim>\<open>request_timestamp\<close> plus \<open>expiry\<close> seconds.
\<close>

definition cleanup_expired_pending_payments :: "timestamp \<Rightarrow> int \<Rightarrow> world \<Rightarrow> world" where
  "cleanup_expired_pending_payments now expiry w =
     w\<lparr>payments := map (\<lambda>p. if status p = ''pending'' \<and> now > request_timestamp p + expiry
                              then p\<lparr>status := ''expired''\<rparr> else p) (payments w)\<rparr>"

text \<open>
  Deleting a catalogue row: \<^verbatim>\<open>fk_content\<close> is declared \<^verbatim>\<open>ON DELETE SET NULL\<close>, so the
  store clears \<^verbatim>\<open>content_id\<close> on the payments that referred to the row and leaves their
  status as it is.
\<close>

definition delete_content :: "string \<Rightarrow> world \<Rightarrow> world" where
  "delete_content cid w =
     w\<lparr>content_library := filter (\<lambda>c. lib_content_id c \<noteq> cid) (content_library w),
       payments := map (\<lambda>p. if content_id p = Some cid then p\<lparr>content_id := None\<rparr> else p)
                       (payments w)\<rparr>"

section \<open>content\_manager.py\<close>

definition cm_initialize :: "env \<Rightarrow> world \<Rightarrow> (error + unit) \<times> world" where
  "cm_initialize env w =
     (case external env CmInitialize w of
        (True, w') \<Rightarrow> (Inl InitError, w')
      | (False, w') \<Rightarrow> (Inr (), w'\<lparr>cm_initialized := True\<rparr>))"

text \<open>
  \<^verbatim>\<open>ORDER BY uploaded_at DESC LIMIT %s\<close> without a search term. The statement names no
  second sort key, so among rows with equal \<^verbatim>\<open>uploaded_at\<close> the order is the store's: by
  the rank it is using for this call, and in scan order where that too is equal.
\<close>

definition order_by_uploaded_at_desc :: "(content \<Rightarrow> nat) \<Rightarrow> content list \<Rightarrow> content list" where
  "order_by_uploaded_at_desc rank cs = sort_key (\<lambda>c. - uploaded_at c) (sort_key rank cs)"

definition list_contents :: "env \<Rightarrow> nat \<Rightarrow> world \<Rightarrow> (error + content list) \<times> world" where
  "list_contents env limit w =
     (case (if cm_initialized w then (Inr (), w) else cm_initialize env w) of
        (Inl e, w1) \<Rightarrow> (Inl e, w1)
      | (Inr _, w1) \<Rightarrow>
          (case external env ListContents w1 of
             (True, w2) \<Rightarrow> (Inr [], w2)
           | (False, w2) \<Rightarrow>
               (Inr (take limit
                       (order_by_uploaded_at_desc (tie_rank w1 (length (trace w1)))
                          (content_library w2))), w2)))"

text \<open>
  The score of one catalogue name against the lower-cased input. Python's \<^verbatim>\<open>/\<close> raises
  on a zero divisor; the quotient is an exact rational here.
\<close>

definition score :: "string \<Rightarrow> string \<Rightarrow> error + rat" where
  "score user_input_lower content_name_lower =
     (if user_input_lower = content_name_lower then Inr 100
      else if list_all (\<lambda>word. contains word content_name_lower) (split user_input_lower)
      then Inr 80
      else
        (let matching_words =
               length (filter (\<lambda>word. contains word content_name_lower) (split user_input_lower))
         in if length (split user_input_lower) = 0 then Inl ZeroDivisionError
            else Inr (of_nat matching_words / of_nat (length (split user_input_lower)) * 60)))"

text \<open>The \<^verbatim>\<open>for content in all_contents\<close> loop, carrying \<^verbatim>\<open>(best_match, best_score)\<close>.\<close>

fun match_loop ::
  "string \<Rightarrow> content list \<Rightarrow> content option \<times> rat \<Rightarrow> error + (content option \<times> rat)" where
  "match_loop u [] acc = Inr acc"
| "match_loop u (c # cs) (best_match, best_score) =
     (case score u (lower (content_name c)) of
        Inl e \<Rightarrow> Inl e
      | Inr s \<Rightarrow>
          (if s > best_score then match_loop u cs (Some c, s)
           else match_loop u cs (best_match, best_score)))"

text \<open>The body of the \<^verbatim>\<open>try\<close> once the listing is there.\<close>

definition keyword_match :: "string \<Rightarrow> content list \<Rightarrow> error + content option" where
  "keyword_match user_input all_contents =
     (if all_contents = [] then Inr None
      else
        (case match_loop (lower user_input) all_contents (None, 0) of
           Inl e \<Rightarrow> Inl e
         | Inr (best_match, best_score) \<Rightarrow>
             (if best_match \<noteq> None \<and> best_score \<ge> 40 then Inr best_match else Inr None)))"

definition find_best_content_match ::
  "env \<Rightarrow> string \<Rightarrow> world \<Rightarrow> (error + content option) \<times> world" where
  "find_best_content_match env user_input w =
     (case (if cm_initialized w then (Inr (), w) else cm_initialize env w) of
        (Inl e, w1) \<Rightarrow> (Inl e, w1)
      | (Inr _, w1) \<Rightarrow>
          (case list_contents env 1000 w1 of
             (Inl e, w2) \<Rightarrow> (Inr None, w2)
           | (Inr all_contents, w2) \<Rightarrow>
               (case keyword_match user_input all_contents of
                  Inl e \<Rightarrow> (Inr None, w2)
                | Inr r \<Rightarrow> (Inr r, w2))))"

section \<open>delivery\_automater.py\<close>

definition initialize :: "env \<Rightarrow> world \<Rightarrow> (error + unit) \<times> world" where
  "initialize env w =
     (case external env Initialize w of
        (True, w1) \<Rightarrow> (Inl InitError, w1)
      | (False, w1) \<Rightarrow>
          (case cm_initialize env w1 of
             (Inl e, w2) \<Rightarrow> (Inl e, w2)
           | (Inr _, w2) \<Rightarrow> (Inr (), w2\<lparr>initialized := True\<rparr>)))"

text \<open>\<^verbatim>\<open>if not self.initialized: await self.initialize()\<close>, outside every \<^verbatim>\<open>try\<close>.\<close>

definition ensure_initialized :: "env \<Rightarrow> world \<Rightarrow> (error + unit) \<times> world" where
  "ensure_initialized env w = (if initialized w then (Inr (), w) else initialize env w)"

definition get_pending_deliveries :: "env \<Rightarrow> world \<Rightarrow> (error + payment list) \<times> world" where
  "get_pending_deliveries env w =
     (case ensure_initialized env w of
        (Inl e, w1) \<Rightarrow> (Inl e, w1)
      | (Inr _, w1) \<Rightarrow>
          (case get_pending_payments_for_admin env w1 of
             (Inl e, w2) \<Rightarrow> (Inr [], w2)
           | (Inr rows, w2) \<Rightarrow> (Inr rows, w2)))"

text \<open>
  \<^verbatim>\<open>_determine_content_to_deliver\<close>: the first row of the listing, whatever the strategy
  argument; every exception becomes \<^verbatim>\<open>None\<close>.
\<close>

definition determine_content_to_deliver :: "env \<Rightarrow> world \<Rightarrow> content option \<times> world" where
  "determine_content_to_deliver env w =
     (case list_contents env 1000 w of
        (Inl e, w1) \<Rightarrow> (None, w1)
      | (Inr [], w1) \<Rightarrow> (None, w1)
      | (Inr (c # _), w1) \<Rightarrow> (Some c, w1))"

text \<open>
  \<^verbatim>\<open>_send_content_to_user\<close>: metadata, download (the chunk loop of the client library is
  one call here), then the transport call chosen by the file type. Any failure is re-raised.
\<close>

definition send_content_to_user ::
  "env \<Rightarrow> int \<Rightarrow> string \<Rightarrow> string \<Rightarrow> string \<Rightarrow> world \<Rightarrow> (error + unit) \<times> world" where
  "send_content_to_user env uid drive_id ftype title w =
     (case external env (DriveMetadata drive_id) w of
        (True, w1) \<Rightarrow> (Inl DriveError, w1)
      | (False, w1) \<Rightarrow>
          (case external env (DriveDownload drive_id) w1 of
             (True, w2) \<Rightarrow> (Inl DriveError, w2)
           | (False, w2) \<Rightarrow>
               (if lower ftype = ''video'' then
                  (case external env (SendVideo uid) w2 of
                     (True, w3) \<Rightarrow> (Inl TelegramError, w3)
                   | (False, w3) \<Rightarrow>
                       (Inr (), w3\<lparr>outbox := outbox w3 @ [Video uid drive_id title]\<rparr>))
                else
                  (case external env (SendDocument uid) w2 of
                     (True, w3) \<Rightarrow> (Inl TelegramError, w3)
                   | (False, w3) \<Rightarrow>
                       (Inr (), w3\<lparr>outbox := outbox w3 @ [Document uid drive_id title]\<rparr>)))))"

text \<open>Python truthiness of an optional string argument.\<close>

definition truthy :: "string option \<Rightarrow> bool" where
  "truthy x = (case x of None \<Rightarrow> False | Some s \<Rightarrow> s \<noteq> [])"

text \<open>
  The \<^verbatim>\<open>if content_id / elif content_name / else\<close> block of \<^verbatim>\<open>process_delivery\<close>.
  \<open>Inr None\<close> is its \<^verbatim>\<open>return False\<close>. In the \<^verbatim>\<open>elif\<close> branch a match whose row is gone
  leaves \<^verbatim>\<open>content = None\<close>, and the subscript \<^verbatim>\<open>content['google_drive_file_id']\<close> that
  follows raises.
\<close>

definition select_content ::
  "env \<Rightarrow> string option \<Rightarrow> string option \<Rightarrow> world \<Rightarrow> (error + content option) \<times> world" where
  "select_content env cid cname w =
     (if truthy cid then
        (case get_content_from_cms_library env (the cid) w of
           (Inl e, w1) \<Rightarrow> (Inl e, w1)
         | (Inr None, w1) \<Rightarrow> (Inr None, w1)
         | (Inr (Some c), w1) \<Rightarrow> (Inr (Some c), w1))
      else if truthy cname then
        (case find_best_content_match env (the cname) w of
           (Inl e, w1) \<Rightarrow> (Inl e, w1)
         | (Inr None, w1) \<Rightarrow> (Inr None, w1)
         | (Inr (Some m), w1) \<Rightarrow>
             (case get_content_from_cms_library env (lib_content_id m) w1 of
                (Inl e, w2) \<Rightarrow> (Inl e, w2)
              | (Inr None, w2) \<Rightarrow> (Inl TypeError, w2)
              | (Inr (Some c), w2) \<Rightarrow> (Inr (Some c), w2)))
      else (Inr None, w))"

text \<open>The body of the \<^verbatim>\<open>try\<close> of \<^verbatim>\<open>process_delivery\<close>.\<close>

definition process_delivery_body ::
  "env \<Rightarrow> string \<Rightarrow> string option \<Rightarrow> string option \<Rightarrow> world \<Rightarrow> (error + bool) \<times> world" where
  "process_delivery_body env pid cid cname w =
     (case get_payment_details env pid w of
        (Inl e, w1) \<Rightarrow> (Inl e, w1)
      | (Inr None, w1) \<Rightarrow> (Inr False, w1)
      | (Inr (Some payment), w1) \<Rightarrow>
          (if status payment \<noteq> ''completed'' then (Inr False, w1)
           else
             (case get_user_info env (user_id payment) w1 of
                (Inl e, w2) \<Rightarrow> (Inl e, w2)
              | (Inr _, w2) \<Rightarrow>
                  (case select_content env cid cname w2 of
                     (Inl e, w3) \<Rightarrow> (Inl e, w3)
                   | (Inr None, w3) \<Rightarrow> (Inr False, w3)
                   | (Inr (Some c), w3) \<Rightarrow>
                       (case send_content_to_user env (user_id payment)
                               (google_drive_file_id c) (file_type c) (content_name c) w3 of
                          (Inl e, w4) \<Rightarrow> (Inl e, w4)
                        | (Inr _, w4) \<Rightarrow>
                            (case link_content_to_payment env pid (lib_content_id c) w4 of
                               (Inl e, w5) \<Rightarrow> (Inl e, w5)
                             | (Inr _, w5) \<Rightarrow>
                                 (case external env NotifyAdmin w5 of
                                    (True, w6) \<Rightarrow> (Inr True, w6)
                                  | (False, w6) \<Rightarrow>
                                      (Inr True,
                                       w6\<lparr>outbox := outbox w6 @ [AdminNote pid]\<rparr>))))))))"

definition process_delivery ::
  "env \<Rightarrow> string \<Rightarrow> string option \<Rightarrow> string option \<Rightarrow> world \<Rightarrow> (error + bool) \<times> world" where
  "process_delivery env pid cid cname w =
     (case ensure_initialized env w of
        (Inl e, w1) \<Rightarrow> (Inl e, w1)
      | (Inr _, w1) \<Rightarrow>
          (case process_delivery_body env pid cid cname w1 of
             (Inl e, w2) \<Rightarrow> (Inr False, w2)
           | (Inr b, w2) \<Rightarrow> (Inr b, w2)))"

section \<open>Continous\_delivery.py\<close>

text \<open>One pass of the \<^verbatim>\<open>for delivery in pending_deliveries\<close> loop per list element.\<close>

fun process_batch ::
  "env \<Rightarrow> payment list \<Rightarrow> nat \<times> nat \<Rightarrow> world \<Rightarrow> (error + nat \<times> nat) \<times> world" where
  "process_batch env [] acc w = (Inr acc, w)"
| "process_batch env (d # ds) (success_count, errors) w =
     (case determine_content_to_deliver env
             (w\<lparr>log := log w @ [LogProcessing (payment_id d)]\<rparr>) of
        (None, w1) \<Rightarrow>
          process_batch env ds (success_count, errors + 1)
            (w1\<lparr>error_count := error_count w1 + 1,
                log := log w1 @ [LogNoContent (payment_id d)]\<rparr>)
      | (Some c, w1) \<Rightarrow>
          (case process_delivery env (payment_id d) (Some (lib_content_id c)) None w1 of
             (Inl e, w2) \<Rightarrow> (Inl e, w2)
           | (Inr True, w2) \<Rightarrow>
               process_batch env ds (success_count + 1, errors)
                 (w2\<lparr>processed_count := processed_count w2 + 1,
                     log := log w2 @ [LogDelivered (payment_id d)]\<rparr>)
           | (Inr False, w2) \<Rightarrow>
               process_batch env ds (success_count, errors + 1)
                 (w2\<lparr>error_count := error_count w2 + 1,
                     log := log w2 @ [LogFailed (payment_id d)]\<rparr>)))"

text \<open>The body of the \<^verbatim>\<open>try\<close> of \<^verbatim>\<open>check_and_process_deliveries\<close>.\<close>

definition check_and_process_body :: "env \<Rightarrow> world \<Rightarrow> (error + nat \<times> nat) \<times> world" where
  "check_and_process_body env w =
     (case get_pending_deliveries env w of
        (Inl e, w1) \<Rightarrow> (Inl e, w1)
      | (Inr [], w1) \<Rightarrow> (Inr (0, 0), w1)
      | (Inr (d # ds), w1) \<Rightarrow> process_batch env (d # ds) (0, 0) w1)"

definition check_and_process_deliveries ::
  "env \<Rightarrow> world \<Rightarrow> (error + nat \<times> nat) \<times> world" where
  "check_and_process_deliveries env w =
     (case check_and_process_body env w of
        (Inl e, w1) \<Rightarrow> (Inr (0, 0), w1\<lparr>log := log w1 @ [LogBatchError]\<rparr>)
      | (Inr r, w1) \<Rightarrow> (Inr r, w1))"

text \<open>
  The \<^verbatim>\<open>except\<close> handler of \<^verbatim>\<open>run_with_exponential_backoff\<close>. The module never imports
  \<^verbatim>\<open>random\<close>; \<open>rnd\<close> is \<open>None\<close> for the module as written and \<open>Some r\<close> for the sample
  \<^verbatim>\<open>random.random()\<close> would give were the name bound.
\<close>

definition max_retry_interval :: nat where
  "max_retry_interval = 3600"

definition backoff_handler :: "rat option \<Rightarrow> nat \<Rightarrow> (error + rat) \<times> nat" where
  "backoff_handler rnd retry_count =
     (let retry_count = retry_count + 1;
          backoff_time = min (60 * 2 ^ retry_count) max_retry_interval;
          jitter = (of_nat backoff_time :: rat) * (1 / 10)
      in case rnd of
           None \<Rightarrow> (Inl NameError, retry_count)
         | Some r \<Rightarrow> (Inr (of_nat backoff_time + (r * jitter * 2 - jitter)), retry_count))"

text \<open>
  One turn of the \<^verbatim>\<open>while self.running\<close> loop: the wait it sleeps (or the exception that
  leaves the loop), the value of \<^verbatim>\<open>retry_count\<close> afterwards, and the world.
\<close>

definition backoff_iteration ::
  "env \<Rightarrow> rat option \<Rightarrow> nat \<Rightarrow> nat \<Rightarrow> world \<Rightarrow> (error + rat) \<times> nat \<times> world" where
  "backoff_iteration env rnd check_interval retry_count w =
     (let retry_count = 0 in
      case (case check_and_process_deliveries env w of
              (Inl e, w1) \<Rightarrow> (Inl e, w1)
            | (Inr _, w1) \<Rightarrow>
                (case external env Sleep w1 of
                   (True, w2) \<Rightarrow> (Inl SleepError, w2)
                 | (False, w2) \<Rightarrow> (Inr (of_nat check_interval), w2))) of
        (Inr wait_time, w') \<Rightarrow> (Inr wait_time, retry_count, w')
      | (Inl e, w') \<Rightarrow>
          (case backoff_handler rnd retry_count of
             (Inl e', rc) \<Rightarrow> (Inl e', rc, w')
           | (Inr wait_time, rc) \<Rightarrow>
               (case external env Sleep w' of
                  (True, w'') \<Rightarrow> (Inl SleepError, rc, w'')
                | (False, w'') \<Rightarrow> (Inr wait_time, rc, w''))))"

text \<open>
  The loop itself, for the \<open>n\<close> turns it makes before a signal clears \<^verbatim>\<open>self.running\<close>;
  the waits slept so far are collected in order.
\<close>

fun backoff_loop ::
  "env \<Rightarrow> rat option \<Rightarrow> nat \<Rightarrow> nat \<Rightarrow> nat \<Rightarrow> rat list \<Rightarrow> world
     \<Rightarrow> (error + rat list) \<times> world" where
  "backoff_loop env rnd check_interval 0 retry_count waits w = (Inr waits, w)"
| "backoff_loop env rnd check_interval (Suc n) retry_count waits w =
     (case backoff_iteration env rnd check_interval retry_count w of
        (Inl e, rc, w') \<Rightarrow> (Inl e, w')
      | (Inr wait_time, rc, w') \<Rightarrow>
          backoff_loop env rnd check_interval n rc (waits @ [wait_time]) w')"

definition run_with_exponential_backoff ::
  "env \<Rightarrow> rat option \<Rightarrow> nat \<Rightarrow> nat \<Rightarrow> world \<Rightarrow> (error + rat list) \<times> world" where
  "run_with_exponential_backoff env rnd check_interval n w =
     (case initialize env w of
        (Inl e, w1) \<Rightarrow> (Inr [], w1)
      | (Inr _, w1) \<Rightarrow> backoff_loop env rnd check_interval n 0 [] w1)"

section \<open>Vocabulary of the properties\<close>

text \<open>
  What a read leaves alone: both tables, the transport's outbox, the log and the two
  running totals of the scheduler object.
\<close>

definition frame :: "world \<Rightarrow> world \<Rightarrow> bool" where
  "frame w w' =
     (payments w' = payments w \<and> content_library w' = content_library w \<and>
      outbox w' = outbox w \<and> log w' = log w \<and>
      processed_count w' = processed_count w \<and> error_count w' = error_count w)"

text \<open>The calls that fetch from the file store, transmit, or write to the ledger.\<close>

fun is_effect :: "call \<Rightarrow> bool" where
  "is_effect (DriveMetadata d) = True"
| "is_effect (DriveDownload d) = True"
| "is_effect (SendVideo u) = True"
| "is_effect (SendDocument u) = True"
| "is_effect (LinkContent p c) = True"
| "is_effect NotifyAdmin = True"
| "is_effect c = False"

definition effects :: "(call \<times> bool) list \<Rightarrow> (call \<times> bool) list" where
  "effects tr = filter (\<lambda>e. is_effect (fst e)) tr"

text \<open>The calls a run made after the state \<open>w\<close>, up to the state \<open>w'\<close>.\<close>

definition new_calls :: "world \<Rightarrow> world \<Rightarrow> (call \<times> bool) list" where
  "new_calls w w' = drop (length (trace w)) (trace w')"

definition new_messages :: "world \<Rightarrow> world \<Rightarrow> message list" where
  "new_messages w w' = drop (length (outbox w)) (outbox w')"

definition new_log :: "world \<Rightarrow> world \<Rightarrow> log_line list" where
  "new_log w w' = drop (length (log w)) (log w')"

text \<open>A step that only reads: the frame is kept and no effect call is made.\<close>

definition reads :: "world \<Rightarrow> world \<Rightarrow> bool" where
  "reads w w' =
     (frame w w' \<and> (\<exists>new. trace w' = trace w @ new \<and> effects new = []) \<and>
      (initialized w \<longrightarrow> initialized w') \<and> (cm_initialized w \<longrightarrow> cm_initialized w'))"

fun is_delivery :: "message \<Rightarrow> bool" where
  "is_delivery (Video u d t) = True"
| "is_delivery (Document u d t) = True"
| "is_delivery (AdminNote p) = False"

fun is_send :: "call \<Rightarrow> bool" where
  "is_send (SendVideo u) = True"
| "is_send (SendDocument u) = True"
| "is_send c = False"

fun is_link :: "call \<Rightarrow> bool" where
  "is_link (LinkContent p c) = True"
| "is_link c = False"

fun is_fetch :: "call \<Rightarrow> bool" where
  "is_fetch (DriveMetadata d) = True"
| "is_fetch (DriveDownload d) = True"
| "is_fetch c = False"

text \<open>What no step of a single delivery touches; an initialised automator stays so.\<close>

definition static :: "world \<Rightarrow> world \<Rightarrow> bool" where
  "static w w' =
     (content_library w' = content_library w \<and> log w' = log w \<and>
      processed_count w' = processed_count w \<and> error_count w' = error_count w \<and>
      (initialized w \<longrightarrow> initialized w'))"

text \<open>
  The ways the body of \<^verbatim>\<open>process_delivery\<close> can end, by the effect calls it made after
  its reads: none; metadata raised; download raised; transmit raised; write-back raised
  or was refused; all done, with the operator note sent or not.
\<close>

definition delivery_effects ::
  "string \<Rightarrow> world \<Rightarrow> error + bool \<Rightarrow> world \<Rightarrow> (call \<times> bool) list \<Rightarrow> bool" where
  "delivery_effects pid w r w' eff =
     (eff = [] \<and> r \<noteq> Inr True \<and> payments w' = payments w \<and> outbox w' = outbox w
      \<or> (\<exists>d. eff = [(DriveMetadata d, True)] \<and> r = Inl DriveError
             \<and> payments w' = payments w \<and> outbox w' = outbox w)
      \<or> (\<exists>d. eff = [(DriveMetadata d, False), (DriveDownload d, True)]
             \<and> r = Inl DriveError \<and> payments w' = payments w \<and> outbox w' = outbox w)
      \<or> (\<exists>d s. eff = [(DriveMetadata d, False), (DriveDownload d, False), (s, True)]
             \<and> is_send s \<and> r = Inl TelegramError
             \<and> payments w' = payments w \<and> outbox w' = outbox w)
      \<or> (\<exists>d s c b m e.
             eff = [(DriveMetadata d, False), (DriveDownload d, False), (s, False),
                    (LinkContent pid c, b)]
             \<and> is_send s \<and> is_delivery m \<and> r = Inl e
             \<and> payments w' = payments w \<and> outbox w' = outbox w @ [m])
      \<or> (\<exists>d s c b m.
             eff = [(DriveMetadata d, False), (DriveDownload d, False), (s, False),
                    (LinkContent pid c, False), (NotifyAdmin, b)]
             \<and> is_send s \<and> is_delivery m \<and> r = Inr True
             \<and> payments w' = map (mark_delivered pid c) (payments w)
             \<and> (list_ex (\<lambda>p. payment_id p = pid) (payments w)
                  \<longrightarrow> list_ex (\<lambda>x. lib_content_id x = c) (content_library w))
             \<and> outbox w' = outbox w @ m # (if b then [] else [AdminNote pid])))"

definition delivery_outcome :: "string \<Rightarrow> world \<Rightarrow> error + bool \<Rightarrow> world \<Rightarrow> bool" where
  "delivery_outcome pid w r w' =
     (static w w' \<and>
      (\<exists>pre eff. trace w' = trace w @ pre @ eff \<and> effects pre = [] \<and>
         delivery_effects pid w r w' eff))"

text \<open>
  A trace in which every write-back call comes directly after a transmit call that
  returned; \<open>sent\<close> says whether the call before the list was one.
\<close>

fun writes_follow_transmit :: "(call \<times> bool) list \<Rightarrow> bool \<Rightarrow> bool" where
  "writes_follow_transmit [] sent = True"
| "writes_follow_transmit (e # es) sent =
     ((if is_link (fst e) then sent else True)
      \<and> writes_follow_transmit es (is_send (fst e) \<and> \<not> snd e))"

definition raised_in :: "(call \<Rightarrow> bool) \<Rightarrow> (call \<times> bool) list \<Rightarrow> bool" where
  "raised_in kind tr = list_ex (\<lambda>e. kind (fst e) \<and> snd e) tr"

definition called_in :: "(call \<Rightarrow> bool) \<Rightarrow> (call \<times> bool) list \<Rightarrow> bool" where
  "called_in kind tr = list_ex (\<lambda>e. kind (fst e)) tr"

text \<open>
  The ledger invariant of the specification, row by row: \<^verbatim>\<open>content_id\<close> is set exactly on
  the delivered rows, and a set \<^verbatim>\<open>content_id\<close> names a catalogue row.
\<close>

definition refers :: "content list \<Rightarrow> payment \<Rightarrow> bool" where
  "refers lib p =
     (case content_id p of None \<Rightarrow> True
      | Some cid \<Rightarrow> list_ex (\<lambda>c. lib_content_id c = cid) lib)"

definition row_ok :: "content list \<Rightarrow> payment \<Rightarrow> bool" where
  "row_ok lib p = ((content_id p \<noteq> None) = (status p = ''delivered'') \<and> refers lib p)"

definition ledger_inv :: "world \<Rightarrow> bool" where
  "ledger_inv w = list_all (row_ok (content_library w)) (payments w)"

definition refs_ok :: "world \<Rightarrow> bool" where
  "refs_ok w = list_all (refers (content_library w)) (payments w)"

text \<open>Lexicographic order on identifiers, by character code.\<close>

fun str_less :: "string \<Rightarrow> string \<Rightarrow> bool" where
  "str_less [] [] = False"
| "str_less [] (b # bs) = True"
| "str_less (a # as) [] = False"
| "str_less (a # as) (b # bs) =
     ((of_char a :: nat) < of_char b \<or> (a = b \<and> str_less as bs))"

text \<open>
  The scoring rule in the words of the specification: 100 for equal lower-cased strings,
  else 80 when every token of the hint is inside the name, else sixty times the share of
  tokens that are.
\<close>

definition keyword_score :: "string \<Rightarrow> string \<Rightarrow> rat" where
  "keyword_score hint name =
     (if lower hint = lower name then 100
      else if (\<forall>t \<in> set (split (lower hint)). contains t (lower name)) then 80
      else of_nat (card {i. i < length (split (lower hint))
                            \<and> contains (split (lower hint) ! i) (lower name)})
           / of_nat (length (split (lower hint))) * 60)"

text \<open>The shape of the log of a batch: per item, the processing line and one outcome.\<close>

fun batch_log_ok :: "payment list \<Rightarrow> log_line list \<Rightarrow> bool" where
  "batch_log_ok [] l = (l = [])"
| "batch_log_ok (d # ds) (a # b # l) =
     (a = LogProcessing (payment_id d)
      \<and> (b = LogDelivered (payment_id d) \<or> b = LogFailed (payment_id d)
           \<or> b = LogNoContent (payment_id d))
      \<and> batch_log_ok ds l)"
| "batch_log_ok (d # ds) l = False"

fun is_delivered_line :: "log_line \<Rightarrow> bool" where
  "is_delivered_line (LogDelivered p) = True"
| "is_delivered_line l = False"

fun is_error_line :: "log_line \<Rightarrow> bool" where
  "is_error_line (LogFailed p) = True"
| "is_error_line (LogNoContent p) = True"
| "is_error_line l = False"

fun processing_ids :: "log_line list \<Rightarrow> string list" where
  "processing_ids [] = []"
| "processing_ids (LogProcessing p # l) = p # processing_ids l"
| "processing_ids (x # l) = processing_ids l"

text \<open>
  What a pass leaves in the trace for each row: one consultation of the matcher (its listing
  query, or the content manager's lazy initialisation raising in its place), and one read of
  the payment for each row handed to \<^verbatim>\<open>process_delivery\<close>. A delivery that succeeds is the
  only one that reaches the operator notification.
\<close>

fun is_matcher_call :: "call \<times> bool \<Rightarrow> bool" where
  "is_matcher_call (ListContents, b) = True"
| "is_matcher_call (CmInitialize, b) = b"
| "is_matcher_call e = False"

fun attempt_ids :: "(call \<times> bool) list \<Rightarrow> string list" where
  "attempt_ids [] = []"
| "attempt_ids ((GetPaymentDetails p, b) # t) = p # attempt_ids t"
| "attempt_ids (e # t) = attempt_ids t"

fun is_notify :: "call \<times> bool \<Rightarrow> bool" where
  "is_notify (NotifyAdmin, b) = True"
| "is_notify e = False"

fun delivery_ids :: "log_line list \<Rightarrow> string list" where
  "delivery_ids [] = []"
| "delivery_ids (LogDelivered p # l) = p # delivery_ids l"
| "delivery_ids (LogFailed p # l) = p # delivery_ids l"
| "delivery_ids (x # l) = delivery_ids l"

fun is_marker :: "call \<Rightarrow> bool" where
  "is_marker ListContents = True"
| "is_marker CmInitialize = True"
| "is_marker (GetPaymentDetails p) = True"
| "is_marker c = False"

text \<open>A step that makes none of the calls above.\<close>

definition unmarked :: "world \<Rightarrow> world \<Rightarrow> bool" where
  "unmarked w w' = (\<exists>t. trace w' = trace w @ t \<and> list_all (\<lambda>e. \<not> is_marker (fst e)) t)"

section \<open>A small shop, for concrete runs\<close>

definition movie_a :: content where
  "movie_a = \<lparr>lib_content_id = ''c1'', content_name = ''Movie A'', file_type = ''video'',
               google_drive_file_id = ''d1'', uploaded_at = 900\<rparr>"

definition movie_b :: content where
  "movie_b = \<lparr>lib_content_id = ''c2'', content_name = ''Movie B'', file_type = ''document'',
               google_drive_file_id = ''d2'', uploaded_at = 1000\<rparr>"

definition pay1 :: payment where
  "pay1 = \<lparr>payment_id = ''p1'', user_id = 7, amount = 500, currency = ''USD'',
            status = ''completed'', request_timestamp = 100, content_id = None\<rparr>"

definition pay2 :: payment where
  "pay2 = \<lparr>payment_id = ''p2'', user_id = 8, amount = 300, currency = ''USD'',
            status = ''completed'', request_timestamp = 50, content_id = None\<rparr>"

definition pay3 :: payment where
  "pay3 = \<lparr>payment_id = ''p3'', user_id = 9, amount = 300, currency = ''USD'',
            status = ''pending'', request_timestamp = 20, content_id = None\<rparr>"

definition shop :: world where
  "shop = \<lparr>payments = [pay1, pay2, pay3], content_library = [movie_a, movie_b],
            tie_rank = (\<lambda>n c. 0), initialized = True, cm_initialized = True, trace = [], outbox = [], log = [],
            processed_count = 0, error_count = 0\<rparr>"

definition env_ok :: env where
  "env_ok = (\<lambda>n c. False)"

definition env_no_drive :: env where
  "env_no_drive = (\<lambda>n c. is_fetch c)"

definition env_no_send :: env where
  "env_no_send = (\<lambda>n c. is_send c)"

definition pay1_delivered :: payment where
  "pay1_delivered = pay1\<lparr>status := ''delivered'', content_id := Some ''c1''\<rparr>"

definition shop_delivered :: world where
  "shop_delivered = shop\<lparr>payments := [pay1_delivered, pay2, pay3]\<rparr>"

definition tie_a :: content where
  "tie_a = \<lparr>lib_content_id = ''a'', content_name = ''First'', file_type = ''document'',
             google_drive_file_id = ''da'', uploaded_at = 5\<rparr>"

definition tie_b :: content where
  "tie_b = \<lparr>lib_content_id = ''b'', content_name = ''Second'', file_type = ''document'',
             google_drive_file_id = ''db'', uploaded_at = 5\<rparr>"

definition tie_shop :: world where
  "tie_shop = shop\<lparr>content_library := [tie_a, tie_b],
                   tie_rank := (\<lambda>n c. if lib_content_id c = ''b'' then 0 else 1)\<rparr>"

definition tie_shop_scan :: world where
  "tie_shop_scan = tie_shop\<lparr>tie_rank := (\<lambda>n c. 0)\<rparr>"

definition blank_named :: content where
  "blank_named = \<lparr>lib_content_id = ''c3'', content_name = '' '', file_type = ''document'',
                   google_drive_file_id = ''d3'', uploaded_at = 800\<rparr>"

definition idle :: world where
  "idle = shop\<lparr>payments := []\<rparr>"

definition env_sleep_twice :: env where
  "env_sleep_twice = (\<lambda>n c. c = Sleep \<and> (n = 1 \<or> n = 4))"

definition env_no_init :: env where
  "env_no_init = (\<lambda>n c. c = Initialize)"

definition cold :: world where
  "cold = shop\<lparr>initialized := False, cm_initialized := False\<rparr>"

section \<open>Properties\<close>

subsection \<open>Reads keep the frame\<close>

lemma frame_refl: "frame w w"
  by (simp add: frame_def)
lemma frame_trans: "frame a b \<Longrightarrow> frame b c \<Longrightarrow> frame a c"
  by (simp add: frame_def)

lemma effects_append [simp]: "effects (a @ b) = effects a @ effects b"
  by (simp add: effects_def)

lemma reads_initialized_update: "reads a b \<Longrightarrow> reads a (b\<lparr>initialized := True\<rparr>)"
  by (auto simp: reads_def frame_def)

lemma reads_cm_initialized_update: "reads a b \<Longrightarrow> reads a (b\<lparr>cm_initialized := True\<rparr>)"
  by (auto simp: reads_def frame_def)

lemma reads_refl: "reads w w"
  by (simp add: reads_def frame_def effects_def)
lemma reads_trans: "reads a b \<Longrightarrow> reads b c \<Longrightarrow> reads a c"
  by (auto simp: reads_def frame_def effects_def)

lemma external_reads:
  "external env c w = (b, w') \<Longrightarrow> \<not> is_effect c \<Longrightarrow> reads w w'"
  by (auto simp: external_def reads_def frame_def effects_def)

lemma external_step:
  "external env c w = (b, w') \<Longrightarrow>
     frame w w' \<and> trace w' = trace w @ [(c, b)] \<and> initialized w' = initialized w
       \<and> cm_initialized w' = cm_initialized w"
  by (auto simp: external_def frame_def)

lemma get_payment_details_reads:
  "get_payment_details env pid w = (r, w') \<Longrightarrow> reads w w'"
  unfolding get_payment_details_def
  by (auto split: prod.splits bool.splits list.splits dest: external_reads)


lemma get_user_info_reads: "get_user_info env uid w = (r, w') \<Longrightarrow> reads w w'"
  unfolding get_user_info_def
  by (auto split: prod.splits bool.splits dest: external_reads)

lemma get_content_reads: "get_content_from_cms_library env cid w = (r, w') \<Longrightarrow> reads w w'"
  unfolding get_content_from_cms_library_def
  by (auto split: prod.splits bool.splits list.splits dest: external_reads)


lemma cm_initialize_reads: "cm_initialize env w = (r, w') \<Longrightarrow> reads w w'"
  unfolding cm_initialize_def
  by (auto split: prod.splits bool.splits dest!: external_reads intro: reads_cm_initialized_update)

lemma cm_initialize_ok: "cm_initialize env w = (Inr u, w') \<Longrightarrow> cm_initialized w'"
  unfolding cm_initialize_def
  by (auto split: prod.splits bool.splits)

lemma initialize_reads: "initialize env w = (r, w') \<Longrightarrow> reads w w'"
  unfolding initialize_def
  by (auto split: prod.splits bool.splits sum.splits dest!: external_reads cm_initialize_reads
      intro: reads_trans reads_initialized_update)

lemma initialize_ok: "initialize env w = (Inr u, w') \<Longrightarrow> initialized w' \<and> cm_initialized w'"
  unfolding initialize_def
  by (auto split: prod.splits bool.splits sum.splits dest!: cm_initialize_ok)

lemma ensure_initialized_reads: "ensure_initialized env w = (r, w') \<Longrightarrow> reads w w'"
  unfolding ensure_initialized_def
  by (auto split: if_splits dest: initialize_reads simp: reads_refl)

lemma ensure_initialized_ok: "ensure_initialized env w = (Inr u, w') \<Longrightarrow> initialized w'"
  unfolding ensure_initialized_def
  by (auto split: if_splits dest: initialize_ok)

lemma ensure_initialized_id: "initialized w \<Longrightarrow> ensure_initialized env w = (Inr (), w)"
  by (simp add: ensure_initialized_def)

lemma list_contents_reads: "list_contents env limit w = (r, w') \<Longrightarrow> reads w w'"
  unfolding list_contents_def
  by (auto split: prod.splits bool.splits sum.splits if_splits
      dest!: external_reads cm_initialize_reads intro: reads_trans)

lemma find_best_content_match_reads:
  "find_best_content_match env u w = (r, w') \<Longrightarrow> reads w w'"
  unfolding find_best_content_match_def
  by (auto split: prod.splits bool.splits sum.splits if_splits
      dest!: list_contents_reads cm_initialize_reads intro: reads_trans)

lemma select_content_reads: "select_content env cid cname w = (r, w') \<Longrightarrow> reads w w'"
  unfolding select_content_def
  by (auto split: prod.splits sum.splits if_splits option.splits
      dest!: get_content_reads find_best_content_match_reads intro: reads_trans reads_refl)

lemma determine_reads: "determine_content_to_deliver env w = (r, w') \<Longrightarrow> reads w w'"
  unfolding determine_content_to_deliver_def
  by (auto split: prod.splits sum.splits list.splits dest!: list_contents_reads)

lemma get_pending_payments_reads: "get_pending_payments_for_admin env w = (r, w') \<Longrightarrow> reads w w'"
  unfolding get_pending_payments_for_admin_def
  by (auto split: prod.splits bool.splits dest: external_reads)

lemma get_pending_deliveries_reads: "get_pending_deliveries env w = (r, w') \<Longrightarrow> reads w w'"
  unfolding get_pending_deliveries_def
  by (auto split: prod.splits sum.splits
      dest!: ensure_initialized_reads get_pending_payments_reads intro: reads_trans)


lemma reads_static: "reads w w' \<Longrightarrow> static w w'"
  by (simp add: reads_def frame_def static_def)

lemma static_refl: "static w w"
  by (simp add: static_def)
lemma static_trans: "static a b \<Longrightarrow> static b c \<Longrightarrow> static a c"
  by (simp add: static_def)

lemma send_content_to_user_spec:
  "send_content_to_user env uid d ft t w = (r, w') \<Longrightarrow>
     static w w' \<and> payments w' = payments w \<and>
     (r = Inl DriveError \<and> outbox w' = outbox w \<and> trace w' = trace w @ [(DriveMetadata d, True)]
      \<or> r = Inl DriveError \<and> outbox w' = outbox w
          \<and> trace w' = trace w @ [(DriveMetadata d, False), (DriveDownload d, True)]
      \<or> (\<exists>s. is_send s \<and> r = Inl TelegramError \<and> outbox w' = outbox w
          \<and> trace w' = trace w @ [(DriveMetadata d, False), (DriveDownload d, False), (s, True)])
      \<or> (\<exists>s m. is_send s \<and> is_delivery m \<and> r = Inr () \<and> outbox w' = outbox w @ [m]
          \<and> trace w' = trace w @ [(DriveMetadata d, False), (DriveDownload d, False), (s, False)]))"
  unfolding send_content_to_user_def external_def static_def
  by (auto split: prod.splits bool.splits if_splits)

lemma link_content_to_payment_spec:
  "link_content_to_payment env pid cid w = (r, w') \<Longrightarrow>
     static w w' \<and> outbox w' = outbox w \<and>
     (\<exists>b. trace w' = trace w @ [(LinkContent pid cid, b)] \<and>
        ((\<exists>e. r = Inl e) \<and> payments w' = payments w
         \<or> r = Inr () \<and> \<not> b \<and> payments w' = map (mark_delivered pid cid) (payments w)
             \<and> (list_ex (\<lambda>p. payment_id p = pid) (payments w)
                  \<longrightarrow> list_ex (\<lambda>c. lib_content_id c = cid) (content_library w))))"
  unfolding link_content_to_payment_def external_def static_def
  by (auto split: prod.splits bool.splits if_splits)

lemma delivery_outcome_fail:
  "reads w w' \<Longrightarrow> r \<noteq> Inr True \<Longrightarrow> delivery_outcome pid w r w'"
proof -
  assume a: "reads w w'" and b: "r \<noteq> Inr True"
  from a obtain new where n: "trace w' = trace w @ new @ []" "effects new = []"
    by (auto simp: reads_def)
  have f: "frame w w'" using a by (simp add: reads_def)
  show ?thesis
    unfolding delivery_outcome_def
    using n b f
    apply (intro conjI)
     apply (rule reads_static[OF a])
    apply (rule exI[of _ new], rule exI[of _ "[]"])
    apply (simp add: frame_def delivery_effects_def)
    done
qed

lemma delivery_effects_frame:
  "frame w w1 \<Longrightarrow> delivery_effects pid w1 r w' eff \<Longrightarrow> delivery_effects pid w r w' eff"
  by (simp add: delivery_effects_def frame_def)

lemma delivery_outcome_pre:
  assumes "reads w w1" and "delivery_outcome pid w1 r w'"
  shows "delivery_outcome pid w r w'"
proof -
  from assms(1) obtain new where n: "trace w1 = trace w @ new" "effects new = []"
    and f: "frame w w1"
    by (auto simp: reads_def)
  from assms(2) obtain pre eff where p: "trace w' = trace w1 @ pre @ eff" "effects pre = []"
    "delivery_effects pid w1 r w' eff"
    by (auto simp: delivery_outcome_def)
  have t: "trace w' = trace w @ (new @ pre) @ eff" "effects (new @ pre) = []"
    using n p by simp_all
  have "static w1 w'"
    using assms(2) by (simp add: delivery_outcome_def)
  then have s: "static w w'"
    using static_trans[OF reads_static[OF assms(1)]] by blast
  from t delivery_effects_frame[OF f p(3)] s show ?thesis
    unfolding delivery_outcome_def by blast
qed

lemma delivery_tail:
  assumes "(case send_content_to_user env uid d ft t w3 of
              (Inl e, w4) \<Rightarrow> (Inl e, w4)
            | (Inr _, w4) \<Rightarrow>
                (case link_content_to_payment env pid c w4 of
                   (Inl e, w5) \<Rightarrow> (Inl e, w5)
                 | (Inr _, w5) \<Rightarrow>
                     (case external env NotifyAdmin w5 of
                        (True, w6) \<Rightarrow> (Inr True, w6)
                      | (False, w6) \<Rightarrow>
                          (Inr True, w6\<lparr>outbox := outbox w6 @ [AdminNote pid]\<rparr>)))) = (r, w')"
  shows "delivery_outcome pid w3 r w'"
proof -
  obtain rs w4 where s: "send_content_to_user env uid d ft t w3 = (rs, w4)" by fastforce
  note ss = send_content_to_user_spec[OF s]
  show ?thesis
  proof (cases rs)
    case (Inl e)
    then have "r = Inl e" "w' = w4" using assms s by simp_all
    with ss Inl show ?thesis
      unfolding delivery_outcome_def
      apply (intro conjI)
       apply simp
      apply (rule exI[of _ "[]"])
      apply (auto simp: effects_def delivery_effects_def)
      done
  next
    case (Inr u)
    obtain rl w5 where l: "link_content_to_payment env pid c w4 = (rl, w5)" by fastforce
    note ls = link_content_to_payment_spec[OF l]
    from ss Inr obtain s m where sm: "is_send s" "is_delivery m" "outbox w4 = outbox w3 @ [m]"
      "trace w4 = trace w3 @ [(DriveMetadata d, False), (DriveDownload d, False), (s, False)]"
      by auto
    have st4: "static w3 w4" "payments w4 = payments w3" using ss by simp_all
    show ?thesis
    proof (cases rl)
      case (Inl e)
      then have "r = Inl e" "w' = w5" using assms s l \<open>rs = Inr u\<close> by simp_all
      with ls Inl sm st4 show ?thesis
        unfolding delivery_outcome_def
        apply (intro conjI)
         apply (simp add: static_def)
        apply (rule exI[of _ "[]"])
        apply (auto simp: effects_def delivery_effects_def)
        done
    next
      case (Inr u')
      obtain b w6 where n: "external env NotifyAdmin w5 = (b, w6)" by fastforce
      note ns = external_step[OF n]
      have r: "r = Inr True" "w' = (if b then w6 else w6\<lparr>outbox := outbox w6 @ [AdminNote pid]\<rparr>)"
        using assms s l n \<open>rs = Inr u\<close> \<open>rl = Inr u'\<close> by (auto split: bool.splits)
      from ls Inr have l5: "trace w5 = trace w4 @ [(LinkContent pid c, False)]"
        "payments w5 = map (mark_delivered pid c) (payments w4)" "outbox w5 = outbox w4"
        "static w4 w5"
        "list_ex (\<lambda>p. payment_id p = pid) (payments w4)
           \<longrightarrow> list_ex (\<lambda>x. lib_content_id x = c) (content_library w4)"
        by auto
      have fk: "list_ex (\<lambda>p. payment_id p = pid) (payments w3)
           \<longrightarrow> list_ex (\<lambda>x. lib_content_id x = c) (content_library w3)"
        using l5(5) st4 by (simp add: static_def)
      have ob: "outbox w' = outbox w3 @ m # (if b then [] else [AdminNote pid])"
        using r ns l5 sm by (simp add: frame_def)
      have tr: "trace w' = trace w3 @ [] @ [(DriveMetadata d, False), (DriveDownload d, False),
          (s, False), (LinkContent pid c, False), (NotifyAdmin, b)]"
        using r ns l5 sm by simp
      have py: "payments w' = map (mark_delivered pid c) (payments w3)"
        using r ns l5 st4 by (simp add: frame_def)
      have st: "static w3 w'"
        using r ns l5 st4 by (simp add: static_def frame_def)
      have de: "delivery_effects pid w3 r w' [(DriveMetadata d, False), (DriveDownload d, False),
          (s, False), (LinkContent pid c, False), (NotifyAdmin, b)]"
        unfolding delivery_effects_def
        apply (intro disjI2)
        apply (rule exI[of _ d], rule exI[of _ s], rule exI[of _ c], rule exI[of _ b],
            rule exI[of _ m])
        using fk ob py sm(1,2) r(1) apply simp
        done
      show ?thesis
        unfolding delivery_outcome_def
        apply (intro conjI)
         apply (rule st)
        apply (rule exI[of _ "[]"])
        apply (rule exI[of _ "[(DriveMetadata d, False), (DriveDownload d, False),
          (s, False), (LinkContent pid c, False), (NotifyAdmin, b)]"])
        using tr de apply (simp add: effects_def)
        done
    qed
  qed
qed

lemma process_delivery_body_outcome:
  assumes "process_delivery_body env pid cid cname w = (r, w')"
  shows "delivery_outcome pid w r w'"
proof -
  obtain r1 w1 where g: "get_payment_details env pid w = (r1, w1)" by fastforce
  note rd1 = get_payment_details_reads[OF g]
  show ?thesis
  proof (cases r1)
    case (Inl e)
    then have "r = Inl e" "w' = w1" using assms g by (simp_all add: process_delivery_body_def)
    then show ?thesis using delivery_outcome_fail[OF rd1] by simp
  next
    case (Inr po)
    show ?thesis
    proof (cases po)
      case None
      then have "r = Inr False" "w' = w1"
        using assms g Inr by (simp_all add: process_delivery_body_def)
      then show ?thesis using delivery_outcome_fail[OF rd1] by simp
    next
      case (Some payment)
      show ?thesis
      proof (cases "status payment \<noteq> ''completed''")
        case True
        then have "r = Inr False" "w' = w1"
          using assms g Inr Some by (simp_all add: process_delivery_body_def)
        then show ?thesis using delivery_outcome_fail[OF rd1] by simp
      next
        case False
        obtain r2 w2 where u: "get_user_info env (user_id payment) w1 = (r2, w2)" by fastforce
        have rd2: "reads w w2" using reads_trans[OF rd1 get_user_info_reads[OF u]] .
        show ?thesis
        proof (cases r2)
          case (Inl e)
          then have "r = Inl e" "w' = w2"
            using assms g \<open>r1 = Inr po\<close> Some False u by (simp_all add: process_delivery_body_def)
          then show ?thesis using delivery_outcome_fail[OF rd2] by simp
        next
          case (Inr uu)
          obtain r3 w3 where sc: "select_content env cid cname w2 = (r3, w3)" by fastforce
          have rd3: "reads w w3" using reads_trans[OF rd2 select_content_reads[OF sc]] .
          show ?thesis
          proof (cases r3)
            case (Inl e)
            then have "r = Inl e" "w' = w3"
              using assms g \<open>r1 = Inr po\<close> Some False u Inr sc
              by (simp_all add: process_delivery_body_def)
            then show ?thesis using delivery_outcome_fail[OF rd3] by simp
          next
            case (Inr co)
            show ?thesis
            proof (cases co)
              case None
              then have "r = Inr False" "w' = w3"
                using assms g \<open>r1 = Inr po\<close> Some False u \<open>r2 = Inr uu\<close> sc Inr
                by (simp_all add: process_delivery_body_def)
              then show ?thesis using delivery_outcome_fail[OF rd3] by simp
            next
              case (Some c)
              have "delivery_outcome pid w3 r w'"
                apply (rule delivery_tail[where env = env and uid = "user_id payment"
                      and d = "google_drive_file_id c" and ft = "file_type c"
                      and t = "content_name c" and c = "lib_content_id c"])
                using assms g \<open>r1 = Inr po\<close> \<open>po = Some payment\<close> False u \<open>r2 = Inr uu\<close> sc Inr Some
                by (simp add: process_delivery_body_def)
              then show ?thesis using delivery_outcome_pre[OF rd3] by simp
            qed
          qed
        qed
      qed
    qed
  qed
qed

subsection \<open>How a delivery attempt can end\<close>

lemma process_delivery_outcome:
  assumes "process_delivery env pid cid cname w = (r, w')"
  shows "\<exists>r0. delivery_outcome pid w r0 w' \<and>
           (r = Inl InitError \<and> r0 = Inl InitError \<and> \<not> initialized w \<and> reads w w'
            \<or> r = (case r0 of Inl e \<Rightarrow> Inr False | Inr b \<Rightarrow> Inr b))"
proof -
  obtain r1 w1 where e: "ensure_initialized env w = (r1, w1)" by fastforce
  note rd = ensure_initialized_reads[OF e]
  show ?thesis
  proof (cases r1)
    case (Inl err)
    then have r: "r = Inl err" "w' = w1" using assms e by (simp_all add: process_delivery_def)
    have "\<not> initialized w" "err = InitError"
      using e Inl
      by (auto simp: ensure_initialized_def initialize_def cm_initialize_def
          split: if_splits prod.splits bool.splits sum.splits)
    then show ?thesis using r rd delivery_outcome_fail[OF rd, of "Inl InitError" pid] by auto
  next
    case (Inr u)
    obtain r0 w2 where b: "process_delivery_body env pid cid cname w1 = (r0, w2)" by fastforce
    have r: "r = (case r0 of Inl e \<Rightarrow> Inr False | Inr b \<Rightarrow> Inr b)" "w' = w2"
      using assms e Inr b by (auto simp: process_delivery_def split: sum.splits)
    have "delivery_outcome pid w r0 w'"
      using delivery_outcome_pre[OF rd process_delivery_body_outcome[OF b]] r by simp
    then show ?thesis using r by auto
  qed
qed

lemma wft_pre:
  "effects pre = [] \<Longrightarrow> writes_follow_transmit (pre @ eff) False = writes_follow_transmit eff False"
proof (induction pre)
  case Nil then show ?case by simp
next
  case (Cons e es)
  then have "\<not> is_effect (fst e)" "effects es = []"
    by (auto simp: effects_def split: if_splits)
  moreover have "\<not> is_link (fst e)" "\<not> is_send (fst e)"
    using \<open>\<not> is_effect (fst e)\<close> by (cases "fst e"; simp)+
  ultimately show ?case using Cons.IH by simp
qed

lemma raised_in_pre:
  assumes "effects pre = []" and "\<And>c. kind c \<Longrightarrow> is_effect c"
  shows "raised_in kind (pre @ eff) = raised_in kind eff"
    and "called_in kind (pre @ eff) = called_in kind eff"
proof -
  have "\<forall>e \<in> set pre. \<not> is_effect (fst e)"
    using assms(1) by (auto simp: effects_def filter_empty_conv)
  then have "\<forall>e \<in> set pre. \<not> kind (fst e)" using assms(2) by blast
  then show "raised_in kind (pre @ eff) = raised_in kind eff"
    "called_in kind (pre @ eff) = called_in kind eff"
    by (auto simp: raised_in_def called_in_def list_ex_iff)
qed

lemma kind_effect:
  "is_fetch c \<Longrightarrow> is_effect c" "is_send c \<Longrightarrow> is_effect c" "is_link c \<Longrightarrow> is_effect c"
  by (cases c; simp)+


lemma send_not_link: "is_send s \<Longrightarrow> is_link s = False"
  by (cases s) simp_all

lemma send_not_fetch: "is_send s \<Longrightarrow> is_fetch s = False"
  by (cases s) simp_all

lemma delivery_effects_wft:
  "delivery_effects pid w r w' eff \<Longrightarrow> writes_follow_transmit eff False"
  unfolding delivery_effects_def
  by (elim disjE exE conjE; simp add: send_not_link)

lemma delivery_effects_raised:
  "delivery_effects pid w r w' eff \<Longrightarrow> raised_in is_fetch eff \<or> raised_in is_send eff \<Longrightarrow>
     (\<exists>e. r = Inl e) \<and> payments w' = payments w \<and> \<not> called_in is_link eff"
  unfolding delivery_effects_def raised_in_def called_in_def
  by (elim disjE exE conjE; simp add: send_not_link send_not_fetch)

lemma delivery_effects_payments:
  "delivery_effects pid w r w' eff \<Longrightarrow> payments w' \<noteq> payments w \<Longrightarrow>
     list_ex is_delivery (new_messages w w')"
  unfolding delivery_effects_def new_messages_def
  by (elim disjE exE conjE; simp)

subsection \<open>C1: the write-back follows the transmit\<close>

text \<open>
  Claim C1. In every run of \<^verbatim>\<open>process_delivery\<close> the write-back call to the ledger is made
  only directly after a transmit call that returned. If a fetch call (metadata or download)
  or the transmit call raises, the run returns \<open>False\<close>, makes no write-back call and leaves
  the \<^verbatim>\<open>payments\<close> table as it was, so the payment keeps its status \<^verbatim>\<open>completed\<close> and its
  empty \<^verbatim>\<open>content_id\<close>. Whenever the table did change, the transport has accepted the
  content for the user.
\<close>

theorem process_delivery_write_back_after_transmit:
  assumes "process_delivery env pid cid cname w = (r, w')"
  shows "writes_follow_transmit (new_calls w w') False
    \<and> (raised_in is_fetch (new_calls w w') \<or> raised_in is_send (new_calls w w')
         \<longrightarrow> r = Inr False \<and> payments w' = payments w \<and> \<not> called_in is_link (new_calls w w'))
    \<and> (payments w' \<noteq> payments w \<longrightarrow> list_ex is_delivery (new_messages w w'))"
proof -
  from process_delivery_outcome[OF assms] obtain r0 where
    o: "delivery_outcome pid w r0 w'" and
    r: "r = Inl InitError \<and> r0 = Inl InitError \<and> \<not> initialized w \<and> reads w w'
            \<or> r = (case r0 of Inl e \<Rightarrow> Inr False | Inr b \<Rightarrow> Inr b)"
    by blast
  from o obtain pre eff where t: "trace w' = trace w @ pre @ eff" "effects pre = []"
    and c: "delivery_effects pid w r0 w' eff"
    unfolding delivery_outcome_def by blast
  have n: "new_calls w w' = pre @ eff"
    using t by (simp add: new_calls_def)
  have 1: "writes_follow_transmit (new_calls w w') False"
    unfolding n wft_pre[OF t(2)] by (rule delivery_effects_wft[OF c])
  have 2: "r = Inr False \<and> payments w' = payments w \<and> \<not> called_in is_link (new_calls w w')"
    if h: "raised_in is_fetch (new_calls w w') \<or> raised_in is_send (new_calls w w')"
  proof -
    from h have h': "raised_in is_fetch eff \<or> raised_in is_send eff"
      by (simp add: n raised_in_pre[OF t(2) kind_effect(1)] raised_in_pre[OF t(2) kind_effect(2)])
    note d = delivery_effects_raised[OF c h']
    have "eff \<noteq> []"
      using h' by (auto simp: raised_in_def)
    have "\<not> reads w w'"
    proof
      assume "reads w w'"
      then obtain new where "trace w' = trace w @ new" "effects new = []"
        by (auto simp: reads_def)
      then have "effects (pre @ eff) = []"
        using t by simp
      then have "effects eff = []"
        by simp
      then show False
        using h' by (auto simp: raised_in_def effects_def list_ex_iff filter_empty_conv
            dest: kind_effect)
    qed
    then have "r = (case r0 of Inl e \<Rightarrow> Inr False | Inr b \<Rightarrow> Inr b)"
      using r by blast
    then have "r = Inr False"
      using d by auto
    then show ?thesis
      using d by (simp add: n raised_in_pre[OF t(2) kind_effect(3)])
  qed
  have 3: "payments w' \<noteq> payments w \<longrightarrow> list_ex is_delivery (new_messages w w')"
    using delivery_effects_payments[OF c] by blast
  from 1 2 3 show ?thesis
    by blast
qed

theorem process_delivery_write_back_after_transmit_witness:
  "fst (process_delivery env_no_drive ''p1'' (Some ''c1'') None shop) = Inr False
   \<and> new_calls shop (snd (process_delivery env_no_drive ''p1'' (Some ''c1'') None shop))
        = [(GetPaymentDetails ''p1'', False), (GetUserInfo 7, False),
           (GetContent ''c1'', False), (DriveMetadata ''d1'', True)]
   \<and> raised_in is_fetch
        (new_calls shop (snd (process_delivery env_no_drive ''p1'' (Some ''c1'') None shop)))
   \<and> payments (snd (process_delivery env_no_drive ''p1'' (Some ''c1'') None shop))
        = payments shop
   \<and> payments (snd (process_delivery env_ok ''p1'' (Some ''c1'') None shop)) \<noteq> payments shop
   \<and> list_ex is_delivery
        (new_messages shop (snd (process_delivery env_ok ''p1'' (Some ''c1'') None shop)))"
proof -
  let ?w1 = "snd (process_delivery env_no_drive ''p1'' (Some ''c1'') None shop)"
  have e: "process_delivery env_no_drive ''p1'' (Some ''c1'') None shop
      = (fst (process_delivery env_no_drive ''p1'' (Some ''c1'') None shop), ?w1)"
    by simp
  have f: "fst (process_delivery env_no_drive ''p1'' (Some ''c1'') None shop) = Inr False"
    by code_simp
  have t: "new_calls shop ?w1 = [(GetPaymentDetails ''p1'', False), (GetUserInfo 7, False),
           (GetContent ''c1'', False), (DriveMetadata ''d1'', True)]"
    by code_simp
  have h: "raised_in is_fetch (new_calls shop ?w1)"
    by code_simp
  have p: "payments ?w1 = payments shop"
    using process_delivery_write_back_after_transmit[OF e] h by blast
  let ?w2 = "snd (process_delivery env_ok ''p1'' (Some ''c1'') None shop)"
  have e2: "process_delivery env_ok ''p1'' (Some ''c1'') None shop
      = (fst (process_delivery env_ok ''p1'' (Some ''c1'') None shop), ?w2)"
    by simp
  have c: "payments ?w2 \<noteq> payments shop"
    by code_simp
  have m: "list_ex is_delivery (new_messages shop ?w2)"
    using process_delivery_write_back_after_transmit[OF e2] c by blast
  from f t h p c m show ?thesis
    by blast
qed

subsection \<open>C2: validation failures have no effect\<close>



lemma reads_keeps_initialized: "reads w w' \<Longrightarrow> initialized w \<Longrightarrow> initialized w'"
  by (simp add: reads_def)





subsection \<open>C3: the ledger invariant\<close>

lemma ledger_inv_cong:
  "payments w' = payments w \<Longrightarrow> content_library w' = content_library w \<Longrightarrow>
     ledger_inv w' = ledger_inv w"
  by (simp add: ledger_inv_def)

lemma row_ok_mark:
  "row_ok lib p \<Longrightarrow> (payment_id p = pid \<longrightarrow> list_ex (\<lambda>c. lib_content_id c = cid) lib) \<Longrightarrow>
     row_ok lib (mark_delivered pid cid p)"
  by (simp add: row_ok_def refers_def mark_delivered_def)

lemma rows_ok_mark:
  "list_all (row_ok lib) ps \<Longrightarrow>
   (list_ex (\<lambda>p. payment_id p = pid) ps \<longrightarrow> list_ex (\<lambda>c. lib_content_id c = cid) lib) \<Longrightarrow>
     list_all (row_ok lib) (map (mark_delivered pid cid) ps)"
  by (auto simp: list_all_iff list_ex_iff row_ok_def refers_def mark_delivered_def)

lemma delivery_effects_inv:
  "delivery_effects pid w r w' eff \<Longrightarrow> content_library w' = content_library w \<Longrightarrow>
     ledger_inv w \<Longrightarrow> ledger_inv w'"
  unfolding delivery_effects_def ledger_inv_def
  by (elim disjE exE conjE; simp add: rows_ok_mark)

lemma delivery_outcome_inv:
  "delivery_outcome pid w r w' \<Longrightarrow> ledger_inv w \<Longrightarrow> ledger_inv w'"
  unfolding delivery_outcome_def
  by (auto simp: static_def intro: delivery_effects_inv)

lemma reads_inv: "reads w w' \<Longrightarrow> ledger_inv w' = ledger_inv w"
  by (simp add: reads_def frame_def ledger_inv_def)

lemma link_content_to_payment_inv:
  "ledger_inv w \<Longrightarrow> ledger_inv (snd (link_content_to_payment env pid cid w))"
proof -
  assume i: "ledger_inv w"
  obtain r w' where l: "link_content_to_payment env pid cid w = (r, w')"
    by fastforce
  from link_content_to_payment_spec[OF l] i have "ledger_inv w'"
    by (auto simp: ledger_inv_def static_def rows_ok_mark)
  then show ?thesis
    using l by simp
qed

lemma mark_delivered_all:
  "list_all (\<lambda>p. payment_id p \<noteq> pid \<or> (status p = ''delivered'' \<and> content_id p = Some cid))
     (map (mark_delivered pid cid) ps)"
  by (induction ps) (simp_all add: mark_delivered_def)

lemma link_content_to_payment_sets_both:
  assumes "fst (link_content_to_payment env pid cid w) = Inr ()"
  shows "list_all (\<lambda>p. payment_id p \<noteq> pid \<or> (status p = ''delivered'' \<and> content_id p = Some cid))
       (payments (snd (link_content_to_payment env pid cid w)))"
proof -
  obtain r w' where l: "link_content_to_payment env pid cid w = (r, w')"
    by fastforce
  with assms have "r = Inr ()"
    by simp
  with link_content_to_payment_spec[OF l]
  have "payments w' = map (mark_delivered pid cid) (payments w)"
    by auto
  then show ?thesis
    using l mark_delivered_all[of pid cid "payments w"] by simp
qed

lemma process_delivery_inv:
  "ledger_inv w \<Longrightarrow> ledger_inv (snd (process_delivery env pid cid cname w))"
proof -
  assume i: "ledger_inv w"
  obtain r w' where l: "process_delivery env pid cid cname w = (r, w')"
    by fastforce
  from process_delivery_outcome[OF l] obtain r0 where "delivery_outcome pid w r0 w'"
    by blast
  from delivery_outcome_inv[OF this i] show ?thesis
    using l by simp
qed

lemma process_delivery_static:
  assumes "process_delivery env pid cid cname w = (r, w')"
  shows "static w w'" and "initialized w \<Longrightarrow> \<exists>b. r = Inr b"
proof -
  from process_delivery_outcome[OF assms] obtain r0 where
    o: "delivery_outcome pid w r0 w'" and
    r: "r = Inl InitError \<and> r0 = Inl InitError \<and> \<not> initialized w \<and> reads w w'
            \<or> r = (case r0 of Inl e \<Rightarrow> Inr False | Inr b \<Rightarrow> Inr b)"
    by blast
  show "static w w'"
    using o by (simp add: delivery_outcome_def)
  show "\<exists>b. r = Inr b" if "initialized w"
    using r that by (cases r0) auto
qed

lemma determine_static:
  "determine_content_to_deliver env w = (r, w') \<Longrightarrow> static w w' \<and> ledger_inv w' = ledger_inv w"
  using determine_reads reads_static reads_inv by blast

lemma process_batch_spec:
  "initialized w \<Longrightarrow> process_batch env ds (s, e) w = (r, w') \<Longrightarrow>
     initialized w' \<and> content_library w' = content_library w
     \<and> (ledger_inv w \<longrightarrow> ledger_inv w')
     \<and> (\<exists>l. log w' = log w @ l \<and> batch_log_ok ds l
            \<and> r = Inr (s + length (filter is_delivered_line l),
                        e + length (filter is_error_line l))
            \<and> processed_count w' = processed_count w + length (filter is_delivered_line l)
            \<and> error_count w' = error_count w + length (filter is_error_line l))"
proof (induction ds arbitrary: s e w)
  case Nil
  then show ?case
    by simp
next
  case (Cons d ds)
  let ?w0 = "w\<lparr>log := log w @ [LogProcessing (payment_id d)]\<rparr>"
  obtain c w1 where dt: "determine_content_to_deliver env ?w0 = (c, w1)"
    by fastforce
  from determine_static[OF dt] have s1: "static ?w0 w1" "ledger_inv w1 = ledger_inv ?w0"
    by simp_all
  have i0: "ledger_inv ?w0 = ledger_inv w"
    by (simp add: ledger_inv_def)
  have init1: "initialized w1"
    using s1(1) Cons.prems(1) by (simp add: static_def)
  have log1: "log w1 = log w @ [LogProcessing (payment_id d)]"
    "content_library w1 = content_library w" "processed_count w1 = processed_count w"
    "error_count w1 = error_count w"
    using s1(1) by (simp_all add: static_def)
  show ?case
  proof (cases c)
    case None
    let ?w2 = "w1\<lparr>error_count := error_count w1 + 1,
                log := log w1 @ [LogNoContent (payment_id d)]\<rparr>"
    have run: "process_batch env ds (s, e + 1) ?w2 = (r, w')"
      using Cons.prems(2) dt None by simp
    have init2: "initialized ?w2"
      using init1 by simp
    from Cons.IH[OF init2 run] obtain l where
      ih: "initialized w'" "content_library w' = content_library ?w2"
      "ledger_inv ?w2 \<longrightarrow> ledger_inv w'"
      "log w' = log ?w2 @ l" "batch_log_ok ds l"
      "r = Inr (s + length (filter is_delivered_line l), e + 1 + length (filter is_error_line l))"
      "processed_count w' = processed_count ?w2 + length (filter is_delivered_line l)"
      "error_count w' = error_count ?w2 + length (filter is_error_line l)"
      by auto
    have i2: "ledger_inv ?w2 = ledger_inv w"
      using s1(2) i0 by (simp add: ledger_inv_def)
    show ?thesis
      apply (intro conjI)
         apply (rule ih(1))
        using ih(2) log1 apply simp
       using ih(3) i2 apply simp
      apply (rule exI[of _ "LogProcessing (payment_id d) # LogNoContent (payment_id d) # l"])
      using ih log1 apply simp
      done
  next
    case (Some cc)
    obtain rp w2 where pd: "process_delivery env (payment_id d) (Some (lib_content_id cc)) None w1
        = (rp, w2)"
      by fastforce
    note ps = process_delivery_static[OF pd]
    from ps(2)[OF init1] obtain b where rp: "rp = Inr b"
      by blast
    have inv2: "ledger_inv w1 \<longrightarrow> ledger_inv w2"
      using process_delivery_inv[of w1 env "payment_id d" "Some (lib_content_id cc)" None] pd
      by simp
    have st2: "initialized w2" "log w2 = log w1" "content_library w2 = content_library w1"
      "processed_count w2 = processed_count w1" "error_count w2 = error_count w1"
      using ps(1) init1 by (simp_all add: static_def)
    show ?thesis
    proof (cases b)
      case True
      let ?w3 = "w2\<lparr>processed_count := processed_count w2 + 1,
                  log := log w2 @ [LogDelivered (payment_id d)]\<rparr>"
      have run: "process_batch env ds (s + 1, e) ?w3 = (r, w')"
        using Cons.prems(2) dt Some pd rp True by simp
      have init3: "initialized ?w3"
        using st2 by simp
      from Cons.IH[OF init3 run] obtain l where
        ih: "initialized w'" "content_library w' = content_library ?w3"
        "ledger_inv ?w3 \<longrightarrow> ledger_inv w'"
        "log w' = log ?w3 @ l" "batch_log_ok ds l"
        "r = Inr (s + 1 + length (filter is_delivered_line l), e + length (filter is_error_line l))"
        "processed_count w' = processed_count ?w3 + length (filter is_delivered_line l)"
        "error_count w' = error_count ?w3 + length (filter is_error_line l)"
        by auto
      have i3: "ledger_inv w \<longrightarrow> ledger_inv ?w3"
        using inv2 s1(2) i0 by (simp add: ledger_inv_def)
      show ?thesis
        apply (intro conjI)
           apply (rule ih(1))
          using ih(2) log1 st2 apply simp
         using ih(3) i3 apply blast
        apply (rule exI[of _ "LogProcessing (payment_id d) # LogDelivered (payment_id d) # l"])
        using ih log1 st2 apply simp
        done
    next
      case False
      let ?w3 = "w2\<lparr>error_count := error_count w2 + 1,
                  log := log w2 @ [LogFailed (payment_id d)]\<rparr>"
      have run: "process_batch env ds (s, e + 1) ?w3 = (r, w')"
        using Cons.prems(2) dt Some pd rp False by simp
      have init3: "initialized ?w3"
        using st2 by simp
      from Cons.IH[OF init3 run] obtain l where
        ih: "initialized w'" "content_library w' = content_library ?w3"
        "ledger_inv ?w3 \<longrightarrow> ledger_inv w'"
        "log w' = log ?w3 @ l" "batch_log_ok ds l"
        "r = Inr (s + length (filter is_delivered_line l), e + 1 + length (filter is_error_line l))"
        "processed_count w' = processed_count ?w3 + length (filter is_delivered_line l)"
        "error_count w' = error_count ?w3 + length (filter is_error_line l)"
        by auto
      have i3: "ledger_inv w \<longrightarrow> ledger_inv ?w3"
        using inv2 s1(2) i0 by (simp add: ledger_inv_def)
      show ?thesis
        apply (intro conjI)
           apply (rule ih(1))
          using ih(2) log1 st2 apply simp
         using ih(3) i3 apply blast
        apply (rule exI[of _ "LogProcessing (payment_id d) # LogFailed (payment_id d) # l"])
        using ih log1 st2 apply simp
        done
    qed
  qed
qed


lemma get_pending_deliveries_initialized:
  "get_pending_deliveries env w = (Inr rows, w') \<Longrightarrow> initialized w'"
  unfolding get_pending_deliveries_def
  by (auto split: prod.splits sum.splits
      dest!: ensure_initialized_ok get_pending_payments_reads simp: reads_def)

lemma check_and_process_body_inv:
  assumes "check_and_process_body env w = (r, w')" and "ledger_inv w"
  shows "ledger_inv w'"
proof -
  obtain r1 w1 where g: "get_pending_deliveries env w = (r1, w1)"
    by fastforce
  have i1: "ledger_inv w1"
    using reads_inv[OF get_pending_deliveries_reads[OF g]] assms(2) by simp
  show ?thesis
  proof (cases r1)
    case (Inl e)
    then show ?thesis
      using assms(1) g i1 by (simp add: check_and_process_body_def)
  next
    case (Inr rows)
    show ?thesis
    proof (cases rows)
      case Nil
      then show ?thesis
        using assms(1) g i1 Inr by (simp add: check_and_process_body_def)
    next
      case (Cons d ds)
      then have run: "process_batch env rows (0, 0) w1 = (r, w')"
        using assms(1) g Inr by (simp add: check_and_process_body_def)
      have "initialized w1"
        using get_pending_deliveries_initialized g Inr by blast
      from process_batch_spec[OF this run] i1 show ?thesis
        by blast
    qed
  qed
qed

lemma check_and_process_deliveries_inv:
  "ledger_inv w \<Longrightarrow> ledger_inv (snd (check_and_process_deliveries env w))"
proof -
  assume i: "ledger_inv w"
  obtain r w1 where b: "check_and_process_body env w = (r, w1)"
    by fastforce
  from check_and_process_body_inv[OF b i] show ?thesis
    using b by (cases r) (simp_all add: check_and_process_deliveries_def ledger_inv_def)
qed

lemma add_pending_payment_inv:
  "ledger_inv w \<Longrightarrow> ledger_inv (snd (add_pending_payment pid uid amt cur now w))"
  by (simp add: add_pending_payment_def ledger_inv_def row_ok_def refers_def)

lemma cleanup_inv:
  "ledger_inv w \<Longrightarrow> ledger_inv (cleanup_expired_pending_payments now expiry w)"
  by (auto simp: cleanup_expired_pending_payments_def ledger_inv_def row_ok_def refers_def
      list_all_iff)

lemma ledger_inv_refs: "ledger_inv w \<Longrightarrow> refs_ok w"
  by (simp add: ledger_inv_def refs_ok_def row_ok_def list_all_iff)

lemma update_payment_status_refs:
  "refs_ok w \<Longrightarrow> refs_ok (update_payment_status pid st w)"
  by (auto simp: update_payment_status_def refs_ok_def refers_def list_all_iff)

lemma delete_content_refs:
  "refs_ok w \<Longrightarrow> refs_ok (delete_content cid w)"
  by (auto simp: delete_content_def refs_ok_def refers_def list_all_iff list_ex_iff
      split: option.splits)

lemma update_payment_status_inv:
  "ledger_inv w \<Longrightarrow> st \<noteq> ''delivered'' \<Longrightarrow>
   list_all (\<lambda>p. payment_id p \<noteq> pid \<or> status p \<noteq> ''delivered'') (payments w) \<Longrightarrow>
     ledger_inv (update_payment_status pid st w)"
  by (auto simp: update_payment_status_def ledger_inv_def row_ok_def refers_def list_all_iff)

lemma delete_content_half:
  "ledger_inv w \<Longrightarrow>
     list_all (\<lambda>p. (content_id p = None \<or> status p = ''delivered'')
                    \<and> refers (content_library (delete_content cid w)) p)
       (payments (delete_content cid w))"
  by (auto simp: delete_content_def ledger_inv_def row_ok_def refers_def list_all_iff list_ex_iff
      split: option.splits)

text \<open>
  Claim C3 as stated fails on the schema it cites: the foreign key \<^verbatim>\<open>fk_content\<close> is declared
  \<^verbatim>\<open>ON DELETE SET NULL\<close>, so once the catalogue row of a delivered payment is deleted the
  payment is still delivered and its content id is gone. Not every row has a content id
  exactly when it is delivered, and a delivered row need not name a catalogue row.
\<close>

theorem ledger_invariant_deletion_counterexample:
  "ledger_inv shop_delivered
   \<and> \<not> ledger_inv (delete_content ''c1'' shop_delivered)
   \<and> list_ex (\<lambda>p. status p = ''delivered'' \<and> content_id p = None)
        (payments (delete_content ''c1'' shop_delivered))"
  by code_simp

text \<open>
  Claim C3, amended. The invariant (content id set exactly on the delivered rows, and then
  naming a catalogue row) is kept by every operation of the pipeline: the write-back
  \<^verbatim>\<open>link_content_to_payment\<close>, which sets both columns of the rows it touches,
  \<^verbatim>\<open>process_delivery\<close>, a whole batch pass, \<^verbatim>\<open>add_pending_payment\<close> and
  \<^verbatim>\<open>cleanup_expired_pending_payments\<close>; the status setter keeps it on every transition that
  neither starts nor ends in \<^verbatim>\<open>delivered\<close>. The deletion of a catalogue row does not keep
  it: afterwards a row with a content id is still a delivered one, but a delivered row may
  have none. Both the status setter and the deletion keep that every content id that is set
  names a catalogue row.
\<close>

theorem ledger_invariant_kept_by_operations:
  "(ledger_inv w \<longrightarrow>
      ledger_inv (snd (link_content_to_payment env pid cid w))
      \<and> (fst (link_content_to_payment env pid cid w) = Inr () \<longrightarrow>
           list_all (\<lambda>p. payment_id p \<noteq> pid
                          \<or> (status p = ''delivered'' \<and> content_id p = Some cid))
             (payments (snd (link_content_to_payment env pid cid w))))
      \<and> ledger_inv (snd (process_delivery env pid c n w))
      \<and> ledger_inv (snd (check_and_process_deliveries env w))
      \<and> ledger_inv (snd (add_pending_payment pid uid amt cur now w))
      \<and> ledger_inv (cleanup_expired_pending_payments now expiry w)
      \<and> (st \<noteq> ''delivered''
           \<and> list_all (\<lambda>p. payment_id p \<noteq> pid \<or> status p \<noteq> ''delivered'') (payments w)
           \<longrightarrow> ledger_inv (update_payment_status pid st w))
      \<and> list_all (\<lambda>p. (content_id p = None \<or> status p = ''delivered'')
                       \<and> refers (content_library (delete_content cid w)) p)
           (payments (delete_content cid w)))
   \<and> (refs_ok w \<longrightarrow> refs_ok (update_payment_status pid st w) \<and> refs_ok (delete_content cid w))"
proof -
  have a: "ledger_inv (snd (link_content_to_payment env pid cid w))
      \<and> (fst (link_content_to_payment env pid cid w) = Inr () \<longrightarrow>
           list_all (\<lambda>p. payment_id p \<noteq> pid
                          \<or> (status p = ''delivered'' \<and> content_id p = Some cid))
             (payments (snd (link_content_to_payment env pid cid w))))
      \<and> ledger_inv (snd (process_delivery env pid c n w))
      \<and> ledger_inv (snd (check_and_process_deliveries env w))
      \<and> ledger_inv (snd (add_pending_payment pid uid amt cur now w))
      \<and> ledger_inv (cleanup_expired_pending_payments now expiry w)
      \<and> (st \<noteq> ''delivered''
           \<and> list_all (\<lambda>p. payment_id p \<noteq> pid \<or> status p \<noteq> ''delivered'') (payments w)
           \<longrightarrow> ledger_inv (update_payment_status pid st w))
      \<and> list_all (\<lambda>p. (content_id p = None \<or> status p = ''delivered'')
                       \<and> refers (content_library (delete_content cid w)) p)
           (payments (delete_content cid w))"
    if i: "ledger_inv w"
  proof -
    have 1: "ledger_inv (snd (link_content_to_payment env pid cid w))"
      by (rule link_content_to_payment_inv[OF i])
    have 2: "fst (link_content_to_payment env pid cid w) = Inr () \<longrightarrow>
         list_all (\<lambda>p. payment_id p \<noteq> pid
                        \<or> (status p = ''delivered'' \<and> content_id p = Some cid))
           (payments (snd (link_content_to_payment env pid cid w)))"
      using link_content_to_payment_sets_both[of env pid cid w] by blast
    have 3: "ledger_inv (snd (process_delivery env pid c n w))"
      by (rule process_delivery_inv[OF i])
    have 4: "ledger_inv (snd (check_and_process_deliveries env w))"
      by (rule check_and_process_deliveries_inv[OF i])
    have 5: "ledger_inv (snd (add_pending_payment pid uid amt cur now w))"
      by (rule add_pending_payment_inv[OF i])
    have 6: "ledger_inv (cleanup_expired_pending_payments now expiry w)"
      by (rule cleanup_inv[OF i])
    have 7: "st \<noteq> ''delivered''
           \<and> list_all (\<lambda>p. payment_id p \<noteq> pid \<or> status p \<noteq> ''delivered'') (payments w)
           \<longrightarrow> ledger_inv (update_payment_status pid st w)"
      using update_payment_status_inv[OF i, of st pid] by blast
    have 8: "list_all (\<lambda>p. (content_id p = None \<or> status p = ''delivered'')
                       \<and> refers (content_library (delete_content cid w)) p)
           (payments (delete_content cid w))"
      by (rule delete_content_half[OF i])
    from 1 2 3 4 5 6 7 8 show ?thesis
      by blast
  qed
  have b: "refs_ok (update_payment_status pid st w) \<and> refs_ok (delete_content cid w)"
    if r: "refs_ok w"
    using update_payment_status_refs[OF r] delete_content_refs[OF r] by blast
  from a b show ?thesis
    by blast
qed

theorem ledger_invariant_kept_by_operations_witness:
  "ledger_inv shop
   \<and> ledger_inv (snd (process_delivery env_ok ''p1'' (Some ''c1'') None shop))
   \<and> status (hd (payments (snd (process_delivery env_ok ''p1'' (Some ''c1'') None shop))))
       = ''delivered''
   \<and> ledger_inv (snd (check_and_process_deliveries env_ok shop))
   \<and> ledger_inv (update_payment_status ''p3'' ''completed'' shop)
   \<and> refs_ok (delete_content ''c1'' shop_delivered)"
proof -
  have i: "ledger_inv shop"
    by code_simp
  have d: "status (hd (payments (snd (process_delivery env_ok ''p1'' (Some ''c1'') None shop))))
       = ''delivered''"
    by code_simp
  have st: "''completed'' \<noteq> ''delivered''"
    by simp
  have nd: "list_all (\<lambda>p. payment_id p \<noteq> ''p3'' \<or> status p \<noteq> ''delivered'') (payments shop)"
    by code_simp
  have r: "refs_ok shop_delivered"
    by code_simp
  note t1 = ledger_invariant_kept_by_operations[of shop env_ok "''p1''" "''c1''" "Some ''c1''" None]
  note t2 = ledger_invariant_kept_by_operations[where w = shop and pid = "''p3''"
      and st = "''completed''"]
  note t3 = ledger_invariant_kept_by_operations[where w = shop_delivered and cid = "''c1''"]
  have a: "ledger_inv (snd (process_delivery env_ok ''p1'' (Some ''c1'') None shop))
      \<and> ledger_inv (snd (check_and_process_deliveries env_ok shop))"
    using t1 i by blast
  have b: "ledger_inv (update_payment_status ''p3'' ''completed'' shop)"
    using t2 i st nd by blast
  have c: "refs_ok (delete_content ''c1'' shop_delivered)"
    using t3 r by blast
  from i d a b c show ?thesis
    by blast
qed

subsection \<open>The batch pass\<close>

lemma batch_log_ok_counts:
  "batch_log_ok ds l \<Longrightarrow>
     length (filter is_delivered_line l) + length (filter is_error_line l) = length ds
     \<and> processing_ids l = map payment_id ds"
  by (induction ds l rule: batch_log_ok.induct) auto

lemma check_and_process_body_log:
  assumes g: "get_pending_deliveries env w = (Inr rows, w1)"
    and b: "check_and_process_body env w = (r, w')"
  shows "\<exists>l. log w' = log w @ l \<and> batch_log_ok rows l
           \<and> r = Inr (length (filter is_delivered_line l), length (filter is_error_line l))
           \<and> processed_count w' = processed_count w + length (filter is_delivered_line l)
           \<and> error_count w' = error_count w + length (filter is_error_line l)"
proof -
  have f: "frame w w1"
    using get_pending_deliveries_reads[OF g] by (simp add: reads_def)
  show ?thesis
  proof (cases rows)
    case Nil
    then have "r = Inr (0, 0)" "w' = w1"
      using g b by (simp_all add: check_and_process_body_def)
    then show ?thesis
      using f Nil by (simp add: frame_def)
  next
    case (Cons d ds)
    then have run: "process_batch env rows (0, 0) w1 = (r, w')"
      using g b by (simp add: check_and_process_body_def)
    have "initialized w1"
      using get_pending_deliveries_initialized g by blast
    from process_batch_spec[OF this run] f show ?thesis
      by (simp add: frame_def)
  qed
qed

lemma check_and_process_deliveries_log:
  assumes "get_pending_deliveries env w = (Inr rows, w1)"
    and "check_and_process_deliveries env w = (r, w')"
  shows "\<exists>l. log w' = log w @ l \<and> batch_log_ok rows l
           \<and> r = Inr (length (filter is_delivered_line l), length (filter is_error_line l))
           \<and> length (filter is_delivered_line l) + length (filter is_error_line l) = length rows
           \<and> processed_count w' = processed_count w + length (filter is_delivered_line l)
           \<and> error_count w' = error_count w + length (filter is_error_line l)"
proof -
  obtain r0 w0 where b: "check_and_process_body env w = (r0, w0)"
    by fastforce
  from check_and_process_body_log[OF assms(1) b] obtain l where
    l: "log w0 = log w @ l" "batch_log_ok rows l"
    "r0 = Inr (length (filter is_delivered_line l), length (filter is_error_line l))"
    "processed_count w0 = processed_count w + length (filter is_delivered_line l)"
    "error_count w0 = error_count w + length (filter is_error_line l)"
    by blast
  have "r = r0" "w' = w0"
    using assms(2) b l(3) by (simp_all add: check_and_process_deliveries_def)
  with l batch_log_ok_counts[OF l(2)] show ?thesis
    by blast
qed

lemma get_pending_deliveries_ok:
  assumes "initialized w" and "\<not> env (length (trace w)) GetPendingPayments"
  shows "fst (get_pending_deliveries env w) =
           Inr (sort_key request_timestamp (filter is_pending (payments w)))"
  using assms
  by (simp add: get_pending_deliveries_def ensure_initialized_def
      get_pending_payments_for_admin_def external_def)

lemma check_and_process_deliveries_total:
  "\<exists>s e. fst (check_and_process_deliveries env w) = Inr (s, e)"
  by (cases "check_and_process_body env w"; cases "fst (check_and_process_body env w)")
    (auto simp: check_and_process_deliveries_def)

subsection \<open>C7: what a pass selects, and in which order\<close>

text \<open>
  Claim C7. When the read of the ledger goes through, the pass works on exactly the rows
  with status \<^verbatim>\<open>completed\<close> and no \<^verbatim>\<open>content_id\<close>, each once, ordered by ascending
  \<^verbatim>\<open>request_timestamp\<close>, and the processing lines of its log name them in that order.
\<close>

theorem checking_selects_pending_oldest_first:
  assumes "initialized w" and "\<not> env (length (trace w)) GetPendingPayments"
    and "check_and_process_deliveries env w = (r, w')"
  shows "\<exists>rows. fst (get_pending_deliveries env w) = Inr rows
           \<and> mset rows = mset (filter (\<lambda>p. status p = ''completed'' \<and> content_id p = None)
                                 (payments w))
           \<and> sorted (map request_timestamp rows)
           \<and> processing_ids (new_log w w') = map payment_id rows"
proof -
  let ?rows = "sort_key request_timestamp (filter is_pending (payments w))"
  have g: "fst (get_pending_deliveries env w) = Inr ?rows"
    using assms(1,2) by (rule get_pending_deliveries_ok)
  then obtain w1 where g': "get_pending_deliveries env w = (Inr ?rows, w1)"
    by (cases "get_pending_deliveries env w") simp
  from check_and_process_deliveries_log[OF g' assms(3)] obtain l where
    l: "log w' = log w @ l" "batch_log_ok ?rows l"
    by blast
  have p: "processing_ids (new_log w w') = map payment_id ?rows"
    using l batch_log_ok_counts[OF l(2)] by (simp add: new_log_def)
  have m: "mset ?rows = mset (filter (\<lambda>p. status p = ''completed'' \<and> content_id p = None)
                                 (payments w))"
    by (simp add: is_pending_def[abs_def])
  have s: "sorted (map request_timestamp ?rows)"
    by simp
  from g m s p show ?thesis
    by blast
qed

theorem checking_selects_pending_oldest_first_witness:
  "initialized shop \<and> \<not> env_ok (length (trace shop)) GetPendingPayments
   \<and> fst (get_pending_deliveries env_ok shop) = Inr [pay2, pay1]
   \<and> processing_ids (new_log shop (snd (check_and_process_deliveries env_ok shop)))
       = [''p2'', ''p1'']"
proof -
  have i: "initialized shop"
    by code_simp
  have n: "\<not> env_ok (length (trace shop)) GetPendingPayments"
    by code_simp
  have e: "check_and_process_deliveries env_ok shop =
      (fst (check_and_process_deliveries env_ok shop),
       snd (check_and_process_deliveries env_ok shop))"
    by simp
  have g: "fst (get_pending_deliveries env_ok shop) = Inr [pay2, pay1]"
    by code_simp
  have m: "map payment_id [pay2, pay1] = [''p2'', ''p1'']"
    by code_simp
  from checking_selects_pending_oldest_first[OF i n e] g m i n show ?thesis
    by auto
qed

subsection \<open>C8: one failure does not stop the batch\<close>

lemma unmarked_refl: "unmarked w w"
  by (simp add: unmarked_def)

lemma unmarked_trans: "unmarked a b \<Longrightarrow> unmarked b c \<Longrightarrow> unmarked a c"
  by (auto simp: unmarked_def)

lemma external_unmarked:
  "external env c w = (b, w') \<Longrightarrow> \<not> is_marker c \<Longrightarrow> unmarked w w'"
  by (auto simp: external_def unmarked_def)

lemma unmarked_outbox: "unmarked w w' \<Longrightarrow> unmarked w (w'\<lparr>outbox := x\<rparr>)"
  by (simp add: unmarked_def)

lemma unmarked_payments: "unmarked w w' \<Longrightarrow> unmarked w (w'\<lparr>payments := x\<rparr>)"
  by (simp add: unmarked_def)

lemma get_user_info_unmarked: "get_user_info env uid w = (r, w') \<Longrightarrow> unmarked w w'"
  unfolding get_user_info_def
  by (auto split: prod.splits bool.splits dest: external_unmarked)

lemma get_content_unmarked:
  "get_content_from_cms_library env cid w = (r, w') \<Longrightarrow> unmarked w w'"
  unfolding get_content_from_cms_library_def
  by (auto split: prod.splits bool.splits list.splits dest: external_unmarked)

lemma select_content_unmarked:
  "select_content env cid None w = (r, w') \<Longrightarrow> unmarked w w'"
  unfolding select_content_def
  by (auto simp: truthy_def unmarked_refl split: prod.splits sum.splits if_splits option.splits
      dest!: get_content_unmarked)

lemma send_not_marker: "is_send s \<Longrightarrow> is_marker s = False"
  by (cases s) simp_all

lemma send_content_to_user_unmarked:
  "send_content_to_user env uid d ft t w = (r, w') \<Longrightarrow> unmarked w w'"
  using send_content_to_user_spec[of env uid d ft t w r w']
  by (auto simp: unmarked_def send_not_marker)

lemma link_content_to_payment_unmarked:
  "link_content_to_payment env pid cid w = (r, w') \<Longrightarrow> unmarked w w'"
  using link_content_to_payment_spec[of env pid cid w r w']
  by (auto simp: unmarked_def)

lemma delivery_tail_unmarked:
  assumes "(case send_content_to_user env uid d ft t w3 of
              (Inl e, w4) \<Rightarrow> (Inl e, w4)
            | (Inr _, w4) \<Rightarrow>
                (case link_content_to_payment env pid c w4 of
                   (Inl e, w5) \<Rightarrow> (Inl e, w5)
                 | (Inr _, w5) \<Rightarrow>
                     (case external env NotifyAdmin w5 of
                        (True, w6) \<Rightarrow> (Inr True, w6)
                      | (False, w6) \<Rightarrow>
                          (Inr True, w6\<lparr>outbox := outbox w6 @ [AdminNote pid]\<rparr>)))) = (r, w')"
  shows "unmarked w3 w'"
proof -
  obtain rs w4 where s: "send_content_to_user env uid d ft t w3 = (rs, w4)"
    by fastforce
  note u4 = send_content_to_user_unmarked[OF s]
  show ?thesis
  proof (cases rs)
    case (Inl e)
    then have "w' = w4"
      using assms s by simp
    then show ?thesis
      using u4 by simp
  next
    case (Inr u)
    obtain rl w5 where l: "link_content_to_payment env pid c w4 = (rl, w5)"
      by fastforce
    have u5: "unmarked w3 w5"
      using unmarked_trans[OF u4 link_content_to_payment_unmarked[OF l]] .
    show ?thesis
    proof (cases rl)
      case (Inl e)
      then have "w' = w5"
        using assms s l \<open>rs = Inr u\<close> by simp
      then show ?thesis
        using u5 by simp
    next
      case (Inr u')
      obtain b w6 where n: "external env NotifyAdmin w5 = (b, w6)"
        by fastforce
      have u6: "unmarked w3 w6"
        using unmarked_trans[OF u5 external_unmarked[OF n]] by simp
      have "w' = (if b then w6 else w6\<lparr>outbox := outbox w6 @ [AdminNote pid]\<rparr>)"
        using assms s l n \<open>rs = Inr u\<close> \<open>rl = Inr u'\<close> by (auto split: bool.splits)
      then show ?thesis
        using u6 unmarked_outbox by (cases b) auto
    qed
  qed
qed

lemma process_delivery_body_trace:
  assumes "process_delivery_body env pid cid None w = (r, w')"
  shows "\<exists>b t. trace w' = trace w @ (GetPaymentDetails pid, b) # t
           \<and> list_all (\<lambda>e. \<not> is_marker (fst e)) t"
proof -
  obtain r1 w1 where g: "get_payment_details env pid w = (r1, w1)"
    by fastforce
  then obtain b where t1: "trace w1 = trace w @ [(GetPaymentDetails pid, b)]"
    by (auto simp: get_payment_details_def external_def split: bool.splits list.splits if_splits)
  have "unmarked w1 w'"
  proof (cases r1)
    case (Inl e)
    then have "w' = w1"
      using assms g by (simp add: process_delivery_body_def)
    then show ?thesis
      by (simp add: unmarked_refl)
  next
    case (Inr po)
    show ?thesis
    proof (cases po)
      case None
      then have "w' = w1"
        using assms g Inr by (simp add: process_delivery_body_def)
      then show ?thesis
        by (simp add: unmarked_refl)
    next
      case (Some payment)
      show ?thesis
      proof (cases "status payment \<noteq> ''completed''")
        case True
        then have "w' = w1"
          using assms g Inr Some by (simp add: process_delivery_body_def)
        then show ?thesis
          by (simp add: unmarked_refl)
      next
        case False
        obtain r2 w2 where u: "get_user_info env (user_id payment) w1 = (r2, w2)"
          by fastforce
        note u2 = get_user_info_unmarked[OF u]
        show ?thesis
        proof (cases r2)
          case (Inl e)
          then have "w' = w2"
            using assms g \<open>r1 = Inr po\<close> Some False u by (simp add: process_delivery_body_def)
          then show ?thesis
            using u2 by simp
        next
          case (Inr uu)
          obtain r3 w3 where sc: "select_content env cid None w2 = (r3, w3)"
            by fastforce
          have u3: "unmarked w1 w3"
            using unmarked_trans[OF u2 select_content_unmarked[OF sc]] .
          show ?thesis
          proof (cases r3)
            case (Inl e)
            then have "w' = w3"
              using assms g \<open>r1 = Inr po\<close> Some False u Inr sc
              by (simp add: process_delivery_body_def)
            then show ?thesis
              using u3 by simp
          next
            case (Inr co)
            show ?thesis
            proof (cases co)
              case None
              then have "w' = w3"
                using assms g \<open>r1 = Inr po\<close> Some False u \<open>r2 = Inr uu\<close> sc Inr
                by (simp add: process_delivery_body_def)
              then show ?thesis
                using u3 by simp
            next
              case (Some c)
              have "unmarked w3 w'"
                apply (rule delivery_tail_unmarked[where env = env and uid = "user_id payment"
                      and d = "google_drive_file_id c" and ft = "file_type c"
                      and t = "content_name c" and c = "lib_content_id c" and pid = pid and r = r])
                using assms g \<open>r1 = Inr po\<close> \<open>po = Some payment\<close> False u \<open>r2 = Inr uu\<close> sc Inr Some
                by (simp add: process_delivery_body_def)
              then show ?thesis
                using unmarked_trans[OF u3] by simp
            qed
          qed
        qed
      qed
    qed
  qed
  then obtain t where "trace w' = trace w1 @ t" "list_all (\<lambda>e. \<not> is_marker (fst e)) t"
    by (auto simp: unmarked_def)
  with t1 show ?thesis
    by simp
qed

lemma process_delivery_trace:
  assumes "initialized w" and "process_delivery env pid cid None w = (r, w')"
  shows "\<exists>b t. trace w' = trace w @ (GetPaymentDetails pid, b) # t
           \<and> list_all (\<lambda>e. \<not> is_marker (fst e)) t"
proof -
  obtain r0 w2 where b: "process_delivery_body env pid cid None w = (r0, w2)"
    by fastforce
  have "w' = w2"
    using assms b by (auto simp: process_delivery_def ensure_initialized_def split: sum.splits)
  with process_delivery_body_trace[OF b] show ?thesis
    by simp
qed

lemma unmarked_counts:
  "list_all (\<lambda>e. \<not> is_marker (fst e)) t \<Longrightarrow> filter is_matcher_call t = [] \<and> attempt_ids t = []"
proof (induction t)
  case Nil
  then show ?case
    by simp
next
  case (Cons e t)
  obtain c b where e: "e = (c, b)"
    by (cases e)
  with Cons show ?case
    by (cases c) auto
qed

lemma attempt_ids_append: "attempt_ids (a @ b) = attempt_ids a @ attempt_ids b"
  by (induction a rule: attempt_ids.induct) auto

lemma delivery_ids_append: "delivery_ids (a @ b) = delivery_ids a @ delivery_ids b"
  by (induction a rule: delivery_ids.induct) auto

lemma determine_trace:
  "determine_content_to_deliver env w = (c, w') \<Longrightarrow>
     \<exists>t. trace w' = trace w @ t \<and> length (filter is_matcher_call t) = 1 \<and> attempt_ids t = []"
  unfolding determine_content_to_deliver_def list_contents_def cm_initialize_def external_def
  by (auto split: prod.splits sum.splits list.splits if_splits bool.splits)

lemma no_effects_no_notify: "effects t = [] \<Longrightarrow> filter is_notify t = []"
proof (induction t)
  case Nil
  then show ?case
    by simp
next
  case (Cons e t)
  obtain c b where e: "e = (c, b)"
    by (cases e)
  with Cons show ?case
    by (cases c) (auto simp: effects_def split: if_splits)
qed

lemma delivery_effects_notify:
  "delivery_effects pid w r w' eff \<Longrightarrow>
     length (filter is_notify eff) = (if r = Inr True then 1 else 0)"
  unfolding delivery_effects_def
  by (elim disjE exE conjE; cases r; auto elim: is_send.elims)

lemma process_delivery_notify:
  assumes "process_delivery env pid cid cname w = (r, w')"
  shows "\<exists>t. trace w' = trace w @ t
           \<and> length (filter is_notify t) = (if r = Inr True then 1 else 0)"
proof -
  from process_delivery_outcome[OF assms] obtain r0 where
    o: "delivery_outcome pid w r0 w'" and
    r: "r = Inl InitError \<and> r0 = Inl InitError \<and> \<not> initialized w \<and> reads w w'
            \<or> r = (case r0 of Inl e \<Rightarrow> Inr False | Inr b \<Rightarrow> Inr b)"
    by blast
  from o obtain pre eff where t: "trace w' = trace w @ pre @ eff" "effects pre = []"
    and c: "delivery_effects pid w r0 w' eff"
    unfolding delivery_outcome_def by blast
  have "(r = Inr True) = (r0 = Inr True)"
    using r by (cases r0) auto
  with delivery_effects_notify[OF c] no_effects_no_notify[OF t(2)]
  have "length (filter is_notify (pre @ eff)) = (if r = Inr True then 1 else 0)"
    by simp
  with t(1) show ?thesis
    by blast
qed


lemma process_batch_trace:
  "initialized w \<Longrightarrow> process_batch env ds (s, e) w = (r, w') \<Longrightarrow>
     \<exists>t l. trace w' = trace w @ t \<and> log w' = log w @ l
       \<and> length (filter is_matcher_call t) = length ds
       \<and> attempt_ids t = delivery_ids l
       \<and> length (filter is_notify t) = length (filter is_delivered_line l)"
proof (induction ds arbitrary: s e w)
  case Nil
  then show ?case
    by simp
next
  case (Cons d ds)
  let ?w0 = "w\<lparr>log := log w @ [LogProcessing (payment_id d)]\<rparr>"
  obtain c w1 where dt: "determine_content_to_deliver env ?w0 = (c, w1)"
    by fastforce
  note rd = determine_reads[OF dt]
  have s1: "static ?w0 w1"
    using reads_static[OF rd] .
  from determine_trace[OF dt] obtain t1 where
    t1: "trace w1 = trace w @ t1" "length (filter is_matcher_call t1) = 1" "attempt_ids t1 = []"
    by auto
  have n1: "filter is_notify t1 = []"
  proof -
    from rd obtain new where "trace w1 = trace ?w0 @ new" "effects new = []"
      by (auto simp: reads_def)
    with t1(1) have "new = t1"
      by simp
    with \<open>effects new = []\<close> show ?thesis
      using no_effects_no_notify by simp
  qed
  have init1: "initialized w1"
    using s1 Cons.prems(1) by (simp add: static_def)
  have log1: "log w1 = log w @ [LogProcessing (payment_id d)]"
    using s1 by (simp add: static_def)
  show ?case
  proof (cases c)
    case None
    let ?w2 = "w1\<lparr>error_count := error_count w1 + 1,
                log := log w1 @ [LogNoContent (payment_id d)]\<rparr>"
    have run: "process_batch env ds (s, e + 1) ?w2 = (r, w')"
      using Cons.prems(2) dt None by simp
    have init2: "initialized ?w2"
      using init1 by simp
    from Cons.IH[OF init2 run] obtain t l where
      ih: "trace w' = trace ?w2 @ t" "log w' = log ?w2 @ l"
      "length (filter is_matcher_call t) = length ds" "attempt_ids t = delivery_ids l"
      "length (filter is_notify t) = length (filter is_delivered_line l)"
      by blast
    show ?thesis
      apply (rule exI[of _ "t1 @ t"])
      apply (rule exI[of _ "LogProcessing (payment_id d) # LogNoContent (payment_id d) # l"])
      using ih t1 n1 log1 apply (simp add: attempt_ids_append)
      done
  next
    case (Some cc)
    obtain rp w2 where pd: "process_delivery env (payment_id d) (Some (lib_content_id cc)) None w1
        = (rp, w2)"
      by fastforce
    note ps = process_delivery_static[OF pd]
    from ps(2)[OF init1] obtain b where rp: "rp = Inr b"
      by blast
    from process_delivery_trace[OF init1 pd] obtain gb t2 where
      t2: "trace w2 = trace w1 @ (GetPaymentDetails (payment_id d), gb) # t2"
      "list_all (\<lambda>e. \<not> is_marker (fst e)) t2"
      by blast
    note c2 = unmarked_counts[OF t2(2)]
    from process_delivery_notify[OF pd] obtain t2' where
      "trace w2 = trace w1 @ t2'" "length (filter is_notify t2') = (if rp = Inr True then 1 else 0)"
      by blast
    with t2(1) have n2: "length (filter is_notify ((GetPaymentDetails (payment_id d), gb) # t2))
        = (if b then 1 else 0)"
      using rp by simp
    have st2: "initialized w2" "log w2 = log w1"
      using ps(1) init1 by (simp_all add: static_def)
    show ?thesis
    proof (cases b)
      case True
      let ?w3 = "w2\<lparr>processed_count := processed_count w2 + 1,
                  log := log w2 @ [LogDelivered (payment_id d)]\<rparr>"
      have run: "process_batch env ds (s + 1, e) ?w3 = (r, w')"
        using Cons.prems(2) dt Some pd rp True by simp
      have init3: "initialized ?w3"
        using st2 by simp
      from Cons.IH[OF init3 run] obtain t l where
        ih: "trace w' = trace ?w3 @ t" "log w' = log ?w3 @ l"
        "length (filter is_matcher_call t) = length ds" "attempt_ids t = delivery_ids l"
        "length (filter is_notify t) = length (filter is_delivered_line l)"
        by blast
      show ?thesis
        apply (rule exI[of _ "t1 @ ((GetPaymentDetails (payment_id d), gb) # t2) @ t"])
        apply (rule exI[of _ "LogProcessing (payment_id d) # LogDelivered (payment_id d) # l"])
        using ih t1 n1 log1 t2(1) c2 n2 st2 True apply (simp add: attempt_ids_append)
        done
    next
      case False
      let ?w3 = "w2\<lparr>error_count := error_count w2 + 1,
                  log := log w2 @ [LogFailed (payment_id d)]\<rparr>"
      have run: "process_batch env ds (s, e + 1) ?w3 = (r, w')"
        using Cons.prems(2) dt Some pd rp False by simp
      have init3: "initialized ?w3"
        using st2 by simp
      from Cons.IH[OF init3 run] obtain t l where
        ih: "trace w' = trace ?w3 @ t" "log w' = log ?w3 @ l"
        "length (filter is_matcher_call t) = length ds" "attempt_ids t = delivery_ids l"
        "length (filter is_notify t) = length (filter is_delivered_line l)"
        by blast
      show ?thesis
        apply (rule exI[of _ "t1 @ ((GetPaymentDetails (payment_id d), gb) # t2) @ t"])
        apply (rule exI[of _ "LogProcessing (payment_id d) # LogFailed (payment_id d) # l"])
        using ih t1 n1 log1 t2(1) c2 n2 st2 False apply (simp add: attempt_ids_append)
        done
    qed
  qed
qed

lemma get_pending_deliveries_trace:
  "get_pending_deliveries env w = (Inr rows, w1) \<Longrightarrow>
     \<exists>t. trace w1 = trace w @ t \<and> filter is_matcher_call t = [] \<and> attempt_ids t = []
       \<and> filter is_notify t = [] \<and> log w1 = log w"
  unfolding get_pending_deliveries_def ensure_initialized_def initialize_def cm_initialize_def
    get_pending_payments_for_admin_def external_def
  by (auto split: prod.splits sum.splits if_splits bool.splits)

lemma check_and_process_deliveries_trace:
  assumes g: "get_pending_deliveries env w = (Inr rows, w1)"
    and c: "check_and_process_deliveries env w = (r, w')"
  shows "\<exists>l. log w' = log w @ l
           \<and> length (filter is_matcher_call (new_calls w w')) = length rows
           \<and> attempt_ids (new_calls w w') = delivery_ids l
           \<and> length (filter is_notify (new_calls w w')) = length (filter is_delivered_line l)"
proof -
  from get_pending_deliveries_trace[OF g] obtain t0 where
    t0: "trace w1 = trace w @ t0" "filter is_matcher_call t0 = []" "attempt_ids t0 = []"
    "filter is_notify t0 = []" "log w1 = log w"
    by blast
  obtain r0 w0 where b: "check_and_process_body env w = (r0, w0)"
    by fastforce
  have "\<exists>t l. trace w0 = trace w1 @ t \<and> log w0 = log w1 @ l
       \<and> length (filter is_matcher_call t) = length rows
       \<and> attempt_ids t = delivery_ids l
       \<and> length (filter is_notify t) = length (filter is_delivered_line l)
       \<and> (\<exists>x. r0 = Inr x)"
  proof (cases rows)
    case Nil
    then have "r0 = Inr (0, 0)" "w0 = w1"
      using g b by (simp_all add: check_and_process_body_def)
    then show ?thesis
      using Nil by simp
  next
    case (Cons d ds)
    then have run: "process_batch env rows (0, 0) w1 = (r0, w0)"
      using g b by (simp add: check_and_process_body_def)
    have i: "initialized w1"
      using get_pending_deliveries_initialized g by blast
    from process_batch_spec[OF i run] have "\<exists>x. r0 = Inr x"
      by blast
    with process_batch_trace[OF i run] show ?thesis
      by blast
  qed
  then obtain t l x where
    tl: "trace w0 = trace w1 @ t" "log w0 = log w1 @ l"
    "length (filter is_matcher_call t) = length rows" "attempt_ids t = delivery_ids l"
    "length (filter is_notify t) = length (filter is_delivered_line l)" "r0 = Inr x"
    by blast
  have "w' = w0"
    using c b tl(6) by (simp add: check_and_process_deliveries_def)
  then have n: "new_calls w w' = t0 @ t" and lg: "log w' = log w @ l"
    using t0 tl by (simp_all add: new_calls_def)
  show ?thesis
    apply (rule exI[of _ l])
    using n lg t0 tl apply (simp add: attempt_ids_append)
    done
qed

text \<open>
  Claim C8. Whatever the environment makes fail, a pass over the pending rows returns a
  pair of counts, never an error. Every row is attempted: the trace of the pass holds one
  consultation of the matcher per row, and a read of the payment by \<^verbatim>\<open>process_delivery\<close>
  for exactly the rows whose outcome is delivered or failed, in the order of the rows. The
  log holds, for each row in order, the processing line followed by exactly one outcome
  line; the two counts are the numbers of delivered and of failed outcomes and add up to
  the number of rows; and the deliveries counted as successful are as many as those that
  reached the operator notification.
\<close>

theorem batch_attempts_every_item:
  assumes "get_pending_deliveries env w = (Inr rows, w1)"
    and "check_and_process_deliveries env w = (r, w')"
  shows "\<exists>l. log w' = log w @ l \<and> batch_log_ok rows l
           \<and> r = Inr (length (filter is_delivered_line l), length (filter is_error_line l))
           \<and> length (filter is_delivered_line l) + length (filter is_error_line l) = length rows
           \<and> processed_count w' = processed_count w + length (filter is_delivered_line l)
           \<and> error_count w' = error_count w + length (filter is_error_line l)
           \<and> length (filter is_matcher_call (new_calls w w')) = length rows
           \<and> attempt_ids (new_calls w w') = delivery_ids l
           \<and> length (filter is_notify (new_calls w w')) = length (filter is_delivered_line l)"
proof -
  from check_and_process_deliveries_log[OF assms] obtain l where
    l: "log w' = log w @ l" "batch_log_ok rows l"
    "r = Inr (length (filter is_delivered_line l), length (filter is_error_line l))"
    "length (filter is_delivered_line l) + length (filter is_error_line l) = length rows"
    "processed_count w' = processed_count w + length (filter is_delivered_line l)"
    "error_count w' = error_count w + length (filter is_error_line l)"
    by blast
  from check_and_process_deliveries_trace[OF assms] obtain l' where
    l': "log w' = log w @ l'"
    "length (filter is_matcher_call (new_calls w w')) = length rows"
    "attempt_ids (new_calls w w') = delivery_ids l'"
    "length (filter is_notify (new_calls w w')) = length (filter is_delivered_line l')"
    by blast
  have "l' = l"
    using l(1) l'(1) by simp
  with l l' show ?thesis
    by blast
qed

theorem batch_attempts_every_item_witness:
  "fst (get_pending_deliveries env_no_drive shop) = Inr [pay2, pay1]
   \<and> fst (check_and_process_deliveries env_no_drive shop) = Inr (0, 2)
   \<and> attempt_ids (new_calls shop (snd (check_and_process_deliveries env_no_drive shop)))
        = [''p2'', ''p1'']
   \<and> length (filter is_matcher_call
        (new_calls shop (snd (check_and_process_deliveries env_no_drive shop)))) = 2
   \<and> (\<exists>l. log (snd (check_and_process_deliveries env_no_drive shop)) = log shop @ l
          \<and> batch_log_ok [pay2, pay1] l
          \<and> delivery_ids l = [''p2'', ''p1''])"
proof -
  have g0: "fst (get_pending_deliveries env_no_drive shop) = Inr [pay2, pay1]"
    by code_simp
  have g: "get_pending_deliveries env_no_drive shop =
     (Inr [pay2, pay1], snd (get_pending_deliveries env_no_drive shop))"
    using g0 by (simp add: prod_eq_iff)
  have f: "fst (check_and_process_deliveries env_no_drive shop) = Inr (0, 2)"
    by code_simp
  have e: "check_and_process_deliveries env_no_drive shop =
      (Inr (0, 2), snd (check_and_process_deliveries env_no_drive shop))"
    using f by (simp add: prod_eq_iff)
  have a: "attempt_ids (new_calls shop (snd (check_and_process_deliveries env_no_drive shop)))
        = [''p2'', ''p1'']"
    by code_simp
  from batch_attempts_every_item[OF g e] obtain l where
    l: "log (snd (check_and_process_deliveries env_no_drive shop)) = log shop @ l"
    "batch_log_ok [pay2, pay1] l"
    "length (filter is_matcher_call
        (new_calls shop (snd (check_and_process_deliveries env_no_drive shop))))
       = length [pay2, pay1]"
    "attempt_ids (new_calls shop (snd (check_and_process_deliveries env_no_drive shop)))
       = delivery_ids l"
    by blast
  have d: "delivery_ids l = [''p2'', ''p1'']"
    using l(4) a by simp
  have m: "length (filter is_matcher_call
        (new_calls shop (snd (check_and_process_deliveries env_no_drive shop)))) = 2"
    using l(3) by simp
  from g0 f a m l(1,2) d show ?thesis
    by blast
qed

subsection \<open>C10: the pass never raises\<close>

text \<open>
  Claim C10. \<^verbatim>\<open>check_and_process_deliveries\<close> always returns a pair of counts. When the body
  of its \<^verbatim>\<open>try\<close> raises, and also when only the read of the pending list fails, the pair
  is \<open>(0, 0)\<close>, as for an empty batch. So a turn of the scheduler loop whose sleep returns
  ends with the normal interval: the backoff handler is not reached from inside the pass.
\<close>

theorem check_and_process_deliveries_never_raises:
  "(\<exists>s e. fst (check_and_process_deliveries env w) = Inr (s, e))
   \<and> ((\<exists>x. fst (check_and_process_body env w) = Inl x)
        \<longrightarrow> fst (check_and_process_deliveries env w) = Inr (0, 0))
   \<and> (initialized w \<and> env (length (trace w)) GetPendingPayments
        \<longrightarrow> fst (check_and_process_deliveries env w) = Inr (0, 0))
   \<and> (\<not> env (length (trace (snd (check_and_process_deliveries env w)))) Sleep
        \<longrightarrow> fst (backoff_iteration env rnd check_interval retry_count w)
              = Inr (of_nat check_interval))"
proof -
  have 1: "\<exists>s e. fst (check_and_process_deliveries env w) = Inr (s, e)"
    by (rule check_and_process_deliveries_total)
  have 2: "(\<exists>x. fst (check_and_process_body env w) = Inl x)
        \<longrightarrow> fst (check_and_process_deliveries env w) = Inr (0, 0)"
    by (cases "check_and_process_body env w") (auto simp: check_and_process_deliveries_def)
  have 3: "initialized w \<and> env (length (trace w)) GetPendingPayments
        \<longrightarrow> fst (check_and_process_deliveries env w) = Inr (0, 0)"
    by (simp add: check_and_process_deliveries_def check_and_process_body_def
        get_pending_deliveries_def ensure_initialized_def get_pending_payments_for_admin_def
        external_def)
  have 4: "fst (backoff_iteration env rnd check_interval retry_count w)
              = Inr (of_nat check_interval)"
    if h: "\<not> env (length (trace (snd (check_and_process_deliveries env w)))) Sleep"
  proof -
    obtain r w1 where c: "check_and_process_deliveries env w = (r, w1)"
      by fastforce
    with 1 obtain s e where "r = Inr (s, e)"
      by auto
    with c h show ?thesis
      by (simp add: backoff_iteration_def external_def)
  qed
  from 1 2 3 4 show ?thesis
    by blast
qed

theorem check_and_process_deliveries_never_raises_witness:
  "fst (check_and_process_body env_no_init cold) = Inl InitError
   \<and> fst (check_and_process_deliveries env_no_init cold) = Inr (0, 0)
   \<and> fst (backoff_iteration env_no_init None 300 5 cold) = Inr 300"
proof -
  have b: "fst (check_and_process_body env_no_init cold) = Inl InitError"
    by code_simp
  have s: "\<not> env_no_init (length (trace (snd (check_and_process_deliveries env_no_init cold)))) Sleep"
    by code_simp
  from check_and_process_deliveries_never_raises[of env_no_init cold None 300 5] b s
  show ?thesis
    by auto
qed

subsection \<open>C5: the recent strategy\<close>

lemma hd_sort_key:
  "sort_key f xs = c # rest \<Longrightarrow>
     \<exists>pre post. xs = pre @ c # post \<and> (\<forall>d\<in>set pre. f c < f d) \<and> (\<forall>d\<in>set post. f c \<le> f d)"
proof (induction xs arbitrary: c rest)
  case Nil
  then show ?case
    by simp
next
  case (Cons x xs)
  show ?case
  proof (cases "sort_key f xs")
    case Nil
    then have "xs = []"
      by (metis length_sort list.size(3) length_0_conv)
    with Cons.prems have "c = x"
      by simp
    with \<open>xs = []\<close> show ?thesis
      by (intro exI[of _ "[]"]) simp
  next
    case (Cons y ys)
    from Cons.IH[OF this] obtain pre post where
      ih: "xs = pre @ y # post" "\<forall>d\<in>set pre. f y < f d" "\<forall>d\<in>set post. f y \<le> f d"
      by blast
    show ?thesis
    proof (cases "f x \<le> f y")
      case True
      then have "c = x"
        using Cons.prems Cons by simp
      moreover have "\<forall>d\<in>set xs. f x \<le> f d"
        using True ih by force
      ultimately show ?thesis
        by (intro exI[of _ "[]"] exI[of _ xs]) simp
    next
      case False
      then have "c = y"
        using Cons.prems Cons by simp
      then show ?thesis
        using ih False by (intro exI[of _ "x # pre"] exI[of _ post]) auto
    qed
  qed
qed

lemma hd_listing:
  assumes "order_by_uploaded_at_desc rank cs = c # rest"
  shows "c \<in> set cs
    \<and> (\<forall>d\<in>set cs. uploaded_at d \<le> uploaded_at c
                     \<and> (uploaded_at d = uploaded_at c \<longrightarrow> rank c \<le> rank d))"
proof -
  from hd_sort_key[OF assms[unfolded order_by_uploaded_at_desc_def]] obtain pre post where
    p: "sort_key rank cs = pre @ c # post" "\<forall>d\<in>set pre. uploaded_at d < uploaded_at c"
    "\<forall>d\<in>set post. uploaded_at d \<le> uploaded_at c"
    by auto
  have s: "set cs = set pre \<union> {c} \<union> set post"
    using p(1) by (metis set_sort set_append list.simps(15) Un_assoc insert_is_Un)
  have "sorted (map rank (pre @ c # post))"
    using p(1) by (metis sorted_sort_key)
  then have r: "\<forall>d\<in>set post. rank c \<le> rank d"
    by (simp add: sorted_append)
  from s p(2,3) r show ?thesis
    by auto
qed

text \<open>
  The rank is no restriction on the store: any order of the rows of a table that is
  descending in \<^verbatim>\<open>uploaded_at\<close> is the listing under some rank.
\<close>

lemma rank_exists:
  "distinct rows \<Longrightarrow> \<exists>rank :: 'a \<Rightarrow> nat. sorted (map rank rows) \<and> inj_on rank (set rows)"
proof (induction rows)
  case Nil
  then show ?case
    by simp
next
  case (Cons x xs)
  then obtain rank' :: "'a \<Rightarrow> nat" where r: "sorted (map rank' xs)" "inj_on rank' (set xs)"
    by auto
  let ?rank = "\<lambda>c. if c = x then 0 else Suc (rank' c)"
  have m: "map ?rank xs = map (\<lambda>c. Suc (rank' c)) xs"
    using Cons.prems by (intro map_cong) auto
  have "sorted (map (\<lambda>c. Suc (rank' c)) xs)"
    using r(1) by (induction xs) auto
  then have "sorted (map ?rank xs)"
    by (simp only: m)
  then have s: "sorted (map ?rank (x # xs))"
    by simp
  have i: "inj_on ?rank (set (x # xs))"
    using r(2) Cons.prems by (auto simp: inj_on_def)
  from s i show ?case
    by blast
qed

lemma every_listing_arises:
  assumes "mset rows = mset cs" and "sorted (map (\<lambda>c. - uploaded_at c) rows)"
    and "distinct cs"
  shows "\<exists>rank. order_by_uploaded_at_desc rank cs = rows"
proof -
  have d: "distinct rows"
    using assms(1,3) by (metis mset_eq_imp_distinct_iff)
  have se: "set cs = set rows"
    using assms(1) by (metis mset_eq_setD)
  from rank_exists[OF d] obtain rank :: "content \<Rightarrow> nat" where
    r: "sorted (map rank rows)" "inj_on rank (set rows)"
    by blast
  have f: "filter (\<lambda>x. rank k = rank x) rows = filter (\<lambda>x. rank k = rank x) cs"
    if k: "k \<in> set rows" for k
  proof -
    have "filter (\<lambda>x. rank k = rank x) rows = filter (\<lambda>x. k = x) rows"
      using r(2) k by (intro filter_cong) (auto simp: inj_on_def)
    also have "\<dots> = replicate (count (mset rows) k) k"
      by (simp add: replicate_count_mset_eq_filter_eq)
    also have "\<dots> = filter (\<lambda>x. k = x) cs"
      using assms(1) by (simp add: replicate_count_mset_eq_filter_eq)
    also have "\<dots> = filter (\<lambda>x. rank k = rank x) cs"
      using r(2) k se by (intro filter_cong) (auto simp: inj_on_def)
    finally show ?thesis .
  qed
  have "sort_key rank cs = rows"
    using assms(1) f r(1) by (rule properties_for_sort_key)
  then have "order_by_uploaded_at_desc rank cs = rows"
    using assms(2) by (simp add: order_by_uploaded_at_desc_def sort_key_id_if_sorted)
  then show ?thesis
    by blast
qed

lemma determine_ok:
  assumes "cm_initialized w" and "\<not> env (length (trace w)) ListContents"
  shows "fst (determine_content_to_deliver env w) =
           (case order_by_uploaded_at_desc (tie_rank w (length (trace w))) (content_library w) of
              [] \<Rightarrow> None | c # _ \<Rightarrow> Some c)"
  using assms
  by (simp add: determine_content_to_deliver_def list_contents_def external_def
      split: list.splits)

text \<open>
  Claim C5 as stated fails on a tie: the listing is ordered by \<^verbatim>\<open>uploaded_at\<close> alone, and of
  two rows with the same timestamp the store may yield first the one with the larger
  content id. On the same catalogue another order of the store gives the other row, so the
  snapshot alone does not fix the result.
\<close>

theorem recent_tie_counterexample:
  "content_library tie_shop = [tie_a, tie_b]
   \<and> uploaded_at tie_a = uploaded_at tie_b
   \<and> str_less (lib_content_id tie_a) (lib_content_id tie_b)
   \<and> fst (determine_content_to_deliver env_ok tie_shop) = Some tie_b
   \<and> content_library tie_shop_scan = content_library tie_shop
   \<and> fst (determine_content_to_deliver env_ok tie_shop_scan) = Some tie_a"
  by code_simp

text \<open>
  Claim C5, amended. When the listing succeeds on a catalogue that is not empty, the
  \<^verbatim>\<open>recent\<close> choice is a row of the catalogue with the greatest \<^verbatim>\<open>uploaded_at\<close>; among
  several such rows it is one the store ranks first for that call, with no comparison of
  content ids. Two calls on the same snapshot return the same row when the store orders the
  tied rows the same way.
\<close>

theorem recent_returns_a_newest:
  assumes "cm_initialized w" and "\<not> env (length (trace w)) ListContents"
    and "content_library w \<noteq> []"
  shows "(\<exists>c. fst (determine_content_to_deliver env w) = Some c
            \<and> c \<in> set (content_library w)
            \<and> (\<forall>d\<in>set (content_library w). uploaded_at d \<le> uploaded_at c
                  \<and> (uploaded_at d = uploaded_at c
                        \<longrightarrow> tie_rank w (length (trace w)) c \<le> tie_rank w (length (trace w)) d)))
    \<and> (\<forall>env' w'. cm_initialized w' \<and> \<not> env' (length (trace w')) ListContents
            \<and> content_library w' = content_library w
            \<and> tie_rank w' (length (trace w')) = tie_rank w (length (trace w))
          \<longrightarrow> fst (determine_content_to_deliver env' w') = fst (determine_content_to_deliver env w))"
proof -
  let ?rows = "order_by_uploaded_at_desc (tie_rank w (length (trace w))) (content_library w)"
  note d = determine_ok[where w = w and env = env, OF assms(1,2)]
  have "length ?rows = length (content_library w)"
    by (simp add: order_by_uploaded_at_desc_def)
  then have "?rows \<noteq> []"
    using assms(3) by (metis length_0_conv)
  then obtain c rest where s: "?rows = c # rest"
    by (cases ?rows) auto
  from hd_listing[OF s] d s have 1: "\<exists>c. fst (determine_content_to_deliver env w) = Some c
            \<and> c \<in> set (content_library w)
            \<and> (\<forall>d\<in>set (content_library w). uploaded_at d \<le> uploaded_at c
                  \<and> (uploaded_at d = uploaded_at c
                        \<longrightarrow> tie_rank w (length (trace w)) c \<le> tie_rank w (length (trace w)) d))"
    by simp
  have 2: "\<forall>env' w'. cm_initialized w' \<and> \<not> env' (length (trace w')) ListContents
            \<and> content_library w' = content_library w
            \<and> tie_rank w' (length (trace w')) = tie_rank w (length (trace w))
          \<longrightarrow> fst (determine_content_to_deliver env' w') = fst (determine_content_to_deliver env w)"
    using d determine_ok by simp
  from 1 2 show ?thesis
    by blast
qed

theorem recent_returns_a_newest_witness:
  "cm_initialized shop \<and> \<not> env_ok (length (trace shop)) ListContents
   \<and> content_library shop \<noteq> []
   \<and> fst (determine_content_to_deliver env_ok shop) = Some movie_b
   \<and> (\<exists>c. fst (determine_content_to_deliver env_ok shop) = Some c
          \<and> c \<in> set (content_library shop)
          \<and> (\<forall>d\<in>set (content_library shop). uploaded_at d \<le> uploaded_at c
                \<and> (uploaded_at d = uploaded_at c
                      \<longrightarrow> tie_rank shop (length (trace shop)) c
                           \<le> tie_rank shop (length (trace shop)) d)))"
proof -
  have i: "cm_initialized shop"
    by code_simp
  have n: "\<not> env_ok (length (trace shop)) ListContents"
    by code_simp
  have c: "content_library shop \<noteq> []"
    by (simp add: shop_def)
  have b: "fst (determine_content_to_deliver env_ok shop) = Some movie_b"
    by code_simp
  from recent_returns_a_newest[where w = shop and env = env_ok, OF i n c] i n c b show ?thesis
    by blast
qed

subsection \<open>C6: exponential backoff\<close>

text \<open>
  Claim C6 describes waits that double from one uncaught error to the next. In
  \<^verbatim>\<open>run_with_exponential_backoff\<close> the line \<^verbatim>\<open>retry_count = 0\<close> is the first statement of the
  \<^verbatim>\<open>try\<close>, so every turn starts from zero: a turn does not depend on the count it is given,
  the handler always computes \<open>min (60 * 2 ^ 1) 3600 = 120\<close> seconds before jitter, and two
  failing turns in a row both wait 120 seconds (jitter sample one half). As the module is
  written, with \<^verbatim>\<open>random\<close> never imported, the handler itself raises and the first failing
  turn ends the loop.
\<close>

theorem backoff_wait_does_not_grow:
  "backoff_iteration env rnd check_interval retry_count w
     = backoff_iteration env rnd check_interval 0 w
   \<and> backoff_handler (Some r) 0 = (Inr (120 + (r * 12 * 2 - 12)), 1)
   \<and> backoff_handler None retry_count = (Inl NameError, retry_count + 1)
   \<and> fst (backoff_loop env_sleep_twice (Some (1 / 2)) 300 2 0 [] idle) = Inr [120, 120]
   \<and> fst (backoff_loop env_sleep_twice None 300 2 0 [] idle) = Inl NameError"
proof -
  have 1: "backoff_iteration env rnd check_interval retry_count w
     = backoff_iteration env rnd check_interval 0 w"
    by (simp add: backoff_iteration_def)
  have 2: "backoff_handler (Some r) 0 = (Inr (120 + (r * 12 * 2 - 12)), 1)"
    by (simp add: backoff_handler_def max_retry_interval_def)
  have 3: "backoff_handler None retry_count = (Inl NameError, retry_count + 1)"
    by (simp add: backoff_handler_def Let_def)
  have 4: "fst (backoff_loop env_sleep_twice (Some (1 / 2)) 300 2 0 [] idle) = Inr [120, 120]"
    by code_simp
  have 5: "fst (backoff_loop env_sleep_twice None 300 2 0 [] idle) = Inl NameError"
    by code_simp
  from 1 2 3 4 5 show ?thesis
    by blast
qed

subsection \<open>C4: the keyword matcher\<close>

lemma score_total: "\<exists>s. score u n = Inr s"
  by (auto simp: score_def Let_def)

lemma score_keyword_score:
  "score (lower hint) (lower name) = Inr (keyword_score hint name)"
  by (auto simp: score_def keyword_score_def Let_def list_all_iff length_filter_conv_card)

lemma partial_score_less:
  assumes "\<not> (\<forall>t \<in> set ts. P t)"
  shows "(of_nat (card {i. i < length ts \<and> P (ts ! i)}) :: rat) / of_nat (length ts) * 60 < 60"
proof -
  from assms obtain t where "t \<in> set ts" "\<not> P t"
    by blast
  then have "length (filter P ts) < length ts"
    by (rule length_filter_less)
  then have l: "card {i. i < length ts \<and> P (ts ! i)} < length ts"
    by (simp add: length_filter_conv_card)
  have pos: "(0 :: rat) < of_nat (length ts)"
    using \<open>t \<in> set ts\<close> by (cases ts) auto
  from l have "(of_nat (card {i. i < length ts \<and> P (ts ! i)}) :: rat) < of_nat (length ts)"
    by simp
  with pos have "(of_nat (card {i. i < length ts \<and> P (ts ! i)}) :: rat) / of_nat (length ts) < 1"
    by (simp add: divide_less_eq)
  moreover have "\<And>q :: rat. q < 1 \<Longrightarrow> q * 60 < 60"
    by simp
  ultimately show ?thesis
    by blast
qed

lemma keyword_score_cases:
  "(lower hint = lower name \<and> keyword_score hint name = 100)
   \<or> (lower hint \<noteq> lower name \<and> (\<forall>t \<in> set (split (lower hint)). contains t (lower name))
        \<and> keyword_score hint name = 80)
   \<or> (lower hint \<noteq> lower name \<and> \<not> (\<forall>t \<in> set (split (lower hint)). contains t (lower name))
        \<and> keyword_score hint name < 60)"
proof (cases "lower hint = lower name")
  case True
  then show ?thesis
    by (simp add: keyword_score_def)
next
  case False
  show ?thesis
  proof (cases "\<forall>t \<in> set (split (lower hint)). contains t (lower name)")
    case True
    then show ?thesis
      using False by (simp add: keyword_score_def)
  next
    case F: False
    have "keyword_score hint name =
        of_nat (card {i. i < length (split (lower hint))
                          \<and> contains (split (lower hint) ! i) (lower name)})
          / of_nat (length (split (lower hint))) * 60"
      using False F unfolding keyword_score_def by (simp only: if_False)
    with partial_score_less[OF F] have "keyword_score hint name < 60"
      by (simp only:)
    with False F show ?thesis
      by blast
  qed
qed

lemma keyword_score_100: "keyword_score hint name = 100 \<longleftrightarrow> lower hint = lower name"
  using keyword_score_cases[of hint name] by auto

lemma keyword_score_80:
  "lower hint \<noteq> lower name \<Longrightarrow>
     keyword_score hint name = 80 \<longleftrightarrow> (\<forall>t \<in> set (split (lower hint)). contains t (lower name))"
  using keyword_score_cases[of hint name] by auto

lemma match_loop_spec:
  assumes "\<And>c. score u (lower (content_name c)) = Inr (S c)"
  shows "\<exists>bm' bs'. match_loop u cs (bm, bs) = Inr (bm', bs') \<and> bs \<le> bs'
           \<and> (\<forall>c\<in>set cs. S c \<le> bs')
           \<and> (bm' = bm \<and> bs' = bs
                \<or> (\<exists>pre c post. cs = pre @ c # post \<and> bm' = Some c \<and> bs' = S c \<and> bs < S c
                       \<and> (\<forall>d\<in>set pre. S d < S c)))"
proof (induction cs arbitrary: bm bs)
  case Nil
  then show ?case
    by simp
next
  case (Cons x xs)
  show ?case
  proof (cases "S x > bs")
    case True
    from Cons.IH[of "Some x" "S x"] obtain bm' bs' where
      ih: "match_loop u xs (Some x, S x) = Inr (bm', bs')" "S x \<le> bs'"
      "\<forall>c\<in>set xs. S c \<le> bs'"
      "bm' = Some x \<and> bs' = S x
         \<or> (\<exists>pre c post. xs = pre @ c # post \<and> bm' = Some c \<and> bs' = S c \<and> S x < S c
                \<and> (\<forall>d\<in>set pre. S d < S c))"
      by blast
    have run: "match_loop u (x # xs) (bm, bs) = Inr (bm', bs')"
      using True ih(1) assms by simp
    have le: "bs \<le> bs'" "\<forall>c\<in>set (x # xs). S c \<le> bs'"
      using True ih(2,3) by auto
    from ih(4) have "\<exists>pre c post. x # xs = pre @ c # post \<and> bm' = Some c \<and> bs' = S c
        \<and> bs < S c \<and> (\<forall>d\<in>set pre. S d < S c)"
    proof
      assume "bm' = Some x \<and> bs' = S x"
      then show ?thesis
        using True by (intro exI[of _ "[]"] exI[of _ x] exI[of _ xs]) simp
    next
      assume "\<exists>pre c post. xs = pre @ c # post \<and> bm' = Some c \<and> bs' = S c \<and> S x < S c
                \<and> (\<forall>d\<in>set pre. S d < S c)"
      then obtain pre c post where "xs = pre @ c # post" "bm' = Some c" "bs' = S c"
        "S x < S c" "\<forall>d\<in>set pre. S d < S c"
        by blast
      then show ?thesis
        using True by (intro exI[of _ "x # pre"] exI[of _ c] exI[of _ post]) auto
    qed
    with run le show ?thesis
      by blast
  next
    case False
    from Cons.IH[of bm bs] obtain bm' bs' where
      ih: "match_loop u xs (bm, bs) = Inr (bm', bs')" "bs \<le> bs'"
      "\<forall>c\<in>set xs. S c \<le> bs'"
      "bm' = bm \<and> bs' = bs
         \<or> (\<exists>pre c post. xs = pre @ c # post \<and> bm' = Some c \<and> bs' = S c \<and> bs < S c
                \<and> (\<forall>d\<in>set pre. S d < S c))"
      by blast
    have run: "match_loop u (x # xs) (bm, bs) = Inr (bm', bs')"
      using False ih(1) assms by simp
    have le: "\<forall>c\<in>set (x # xs). S c \<le> bs'"
      using False ih(2,3) by auto
    from ih(4) have "bm' = bm \<and> bs' = bs
         \<or> (\<exists>pre c post. x # xs = pre @ c # post \<and> bm' = Some c \<and> bs' = S c \<and> bs < S c
                \<and> (\<forall>d\<in>set pre. S d < S c))"
    proof
      assume "bm' = bm \<and> bs' = bs"
      then show ?thesis
        by simp
    next
      assume "\<exists>pre c post. xs = pre @ c # post \<and> bm' = Some c \<and> bs' = S c \<and> bs < S c
                \<and> (\<forall>d\<in>set pre. S d < S c)"
      then obtain pre c post where p: "xs = pre @ c # post" "bm' = Some c" "bs' = S c"
        "bs < S c" "\<forall>d\<in>set pre. S d < S c"
        by blast
      have "\<exists>pre c post. x # xs = pre @ c # post \<and> bm' = Some c \<and> bs' = S c \<and> bs < S c
                \<and> (\<forall>d\<in>set pre. S d < S c)"
        using p False by (intro exI[of _ "x # pre"] exI[of _ c] exI[of _ post]) auto
      then show ?thesis
        by blast
    qed
    with run ih(2) le show ?thesis
      by blast
  qed
qed

lemma keyword_match_spec:
  "(\<exists>r. keyword_match hint cs = Inr r)
   \<and> (keyword_match hint cs = Inr None
        \<longleftrightarrow> (\<forall>c\<in>set cs. keyword_score hint (content_name c) < 40))
   \<and> (\<forall>c. keyword_match hint cs = Inr (Some c) \<longrightarrow>
         (\<exists>pre post. cs = pre @ c # post \<and> 40 \<le> keyword_score hint (content_name c)
            \<and> (\<forall>d\<in>set pre. keyword_score hint (content_name d)
                               < keyword_score hint (content_name c))
            \<and> (\<forall>d\<in>set post. keyword_score hint (content_name d)
                               \<le> keyword_score hint (content_name c))))"
proof (cases "cs = []")
  case True
  then show ?thesis
    by (simp add: keyword_match_def)
next
  case False
  let ?S = "\<lambda>c. keyword_score hint (content_name c)"
  from match_loop_spec[of "lower hint" ?S cs None 0, OF score_keyword_score]
  obtain bm' bs' where
    m: "match_loop (lower hint) cs (None, 0) = Inr (bm', bs')" "0 \<le> bs'"
    "\<forall>c\<in>set cs. ?S c \<le> bs'"
    "bm' = None \<and> bs' = 0
       \<or> (\<exists>pre c post. cs = pre @ c # post \<and> bm' = Some c \<and> bs' = ?S c \<and> 0 < ?S c
              \<and> (\<forall>d\<in>set pre. ?S d < ?S c))"
    by blast
  have km: "keyword_match hint cs = (if bm' \<noteq> None \<and> 40 \<le> bs' then Inr bm' else Inr None)"
    using False m(1) by (simp add: keyword_match_def)
  from m(4) show ?thesis
  proof
    assume a: "bm' = None \<and> bs' = 0"
    then have "keyword_match hint cs = Inr None"
      using km by simp
    moreover have "\<forall>c\<in>set cs. ?S c < 40"
      using m(3) a by fastforce
    ultimately show ?thesis
      by simp
  next
    assume "\<exists>pre c post. cs = pre @ c # post \<and> bm' = Some c \<and> bs' = ?S c \<and> 0 < ?S c
              \<and> (\<forall>d\<in>set pre. ?S d < ?S c)"
    then obtain pre c post where p: "cs = pre @ c # post" "bm' = Some c" "bs' = ?S c"
      "\<forall>d\<in>set pre. ?S d < ?S c"
      by blast
    have post: "\<forall>d\<in>set post. ?S d \<le> ?S c"
      using m(3) p(1,3) by simp
    show ?thesis
    proof (cases "40 \<le> ?S c")
      case True
      then have k: "keyword_match hint cs = Inr (Some c)"
        using km p by simp
      have "c \<in> set cs"
        using p(1) by simp
      then have "\<not> (\<forall>c\<in>set cs. ?S c < 40)"
        using True by force
      with k p(1,4) post True show ?thesis
        by auto
    next
      case F: False
      then have k: "keyword_match hint cs = Inr None"
        using km p by simp
      have "\<forall>d\<in>set cs. ?S d < 40"
        using m(3) p(3) F by fastforce
      with k show ?thesis
        by simp
    qed
  qed
qed

lemma find_best_content_match_ok:
  assumes "cm_initialized w" and "\<not> env (length (trace w)) ListContents"
  shows "fst (find_best_content_match env hint w)
           = keyword_match hint
              (take 1000 (order_by_uploaded_at_desc (tie_rank w (length (trace w)))
                 (content_library w)))"
proof -
  obtain r where "keyword_match hint
              (take 1000 (order_by_uploaded_at_desc (tie_rank w (length (trace w)))
                 (content_library w)))
      = Inr r"
    using keyword_match_spec by blast
  then show ?thesis
    using assms by (simp add: find_best_content_match_def list_contents_def external_def)
qed

text \<open>
  Claim C4. The score the code computes for a name is the score of the specification: 100
  exactly when hint and name are equal after lower-casing; otherwise 80 exactly when every
  whitespace-delimited token of the lower-cased hint is a substring of the lower-cased name;
  otherwise sixty times the share of tokens that are. The matcher never raises on a listing;
  it returns nothing exactly when every score is below 40, and otherwise the first item of
  the listing among those with the greatest score. With the listing read successfully,
  \<^verbatim>\<open>find_best_content_match\<close> is this matcher on the first 1000 rows. Scores are exact
  rationals here, where Python computes them in floating point.
\<close>

theorem keyword_matcher_scores_and_selects:
  "score (lower hint) (lower name) = Inr (keyword_score hint name)
   \<and> (keyword_score hint name = 100 \<longleftrightarrow> lower hint = lower name)
   \<and> (lower hint \<noteq> lower name \<longrightarrow>
        (keyword_score hint name = 80
          \<longleftrightarrow> (\<forall>t \<in> set (split (lower hint)). contains t (lower name))))
   \<and> (\<exists>r. keyword_match hint cs = Inr r)
   \<and> (keyword_match hint cs = Inr None
        \<longleftrightarrow> (\<forall>c\<in>set cs. keyword_score hint (content_name c) < 40))
   \<and> (\<forall>c. keyword_match hint cs = Inr (Some c) \<longrightarrow>
         (\<exists>pre post. cs = pre @ c # post \<and> 40 \<le> keyword_score hint (content_name c)
            \<and> (\<forall>d\<in>set pre. keyword_score hint (content_name d)
                               < keyword_score hint (content_name c))
            \<and> (\<forall>d\<in>set post. keyword_score hint (content_name d)
                               \<le> keyword_score hint (content_name c))))
   \<and> (cm_initialized w \<and> \<not> env (length (trace w)) ListContents \<longrightarrow>
        fst (find_best_content_match env hint w)
          = keyword_match hint
              (take 1000 (order_by_uploaded_at_desc (tie_rank w (length (trace w)))
                 (content_library w))))"
proof -
  note k = keyword_match_spec[of hint cs]
  have f: "cm_initialized w \<and> \<not> env (length (trace w)) ListContents \<longrightarrow>
        fst (find_best_content_match env hint w)
          = keyword_match hint
              (take 1000 (order_by_uploaded_at_desc (tie_rank w (length (trace w)))
                 (content_library w)))"
    using find_best_content_match_ok[where w = w and env = env and hint = hint] by blast
  have e: "lower hint \<noteq> lower name \<longrightarrow>
        (keyword_score hint name = 80
          \<longleftrightarrow> (\<forall>t \<in> set (split (lower hint)). contains t (lower name)))"
    using keyword_score_80[of hint name] by blast
  from score_keyword_score[of hint name] keyword_score_100[of hint name] e k f show ?thesis
    by (intro conjI) blast+
qed

theorem keyword_matcher_scores_and_selects_witness:
  "keyword_score ''movie a'' ''Movie A'' = 100
   \<and> keyword_score ''movie a'' ''Movie Alpha'' = 80
   \<and> keyword_score ''movie b c'' ''Movie A'' = 20
   \<and> lower ''movie a'' \<noteq> lower ''Movie Alpha''
   \<and> list_all (\<lambda>t. contains t (lower ''Movie Alpha'')) (split (lower ''movie a''))
   \<and> keyword_match ''movie b'' [movie_a, movie_b] = Inr (Some movie_b)
   \<and> 40 \<le> keyword_score ''movie b'' (content_name movie_b)
   \<and> cm_initialized shop \<and> \<not> env_ok (length (trace shop)) ListContents
   \<and> fst (find_best_content_match env_ok ''movie b'' shop) = Inr (Some movie_b)"
proof -
  have s1: "score (lower ''movie a'') (lower ''Movie A'') = Inr 100"
    by code_simp
  have s2: "score (lower ''movie a'') (lower ''Movie Alpha'') = Inr 80"
    by code_simp
  have s3: "score (lower ''movie b c'') (lower ''Movie A'') = Inr 20"
    by code_simp
  have n: "lower ''movie a'' \<noteq> lower ''Movie Alpha''"
    by code_simp
  have k: "keyword_match ''movie b'' [movie_a, movie_b] = Inr (Some movie_b)"
    by code_simp
  have i: "cm_initialized shop"
    by code_simp
  have l: "\<not> env_ok (length (trace shop)) ListContents"
    by code_simp
  have o: "take 1000 (order_by_uploaded_at_desc (tie_rank shop (length (trace shop)))
      (content_library shop)) = [movie_b, movie_a]"
    by code_simp
  have k2: "keyword_match ''movie b'' [movie_b, movie_a] = Inr (Some movie_b)"
    by code_simp
  note t1 = keyword_matcher_scores_and_selects[of "''movie a''" "''Movie A''"]
  note t2 = keyword_matcher_scores_and_selects[of "''movie a''" "''Movie Alpha''"]
  note t3 = keyword_matcher_scores_and_selects[of "''movie b c''" "''Movie A''"]
  note t4 = keyword_matcher_scores_and_selects[of "''movie b''" "''Movie A''"
      "[movie_a, movie_b]" shop env_ok]
  have a1: "keyword_score ''movie a'' ''Movie A'' = 100"
    using t1 s1 by simp
  have a2: "keyword_score ''movie a'' ''Movie Alpha'' = 80"
    using t2 s2 by simp
  have a3: "keyword_score ''movie b c'' ''Movie A'' = 20"
    using t3 s3 by simp
  have "\<forall>t \<in> set (split (lower ''movie a'')). contains t (lower ''Movie Alpha'')"
    using t2 a2 n by blast
  then have a4: "list_all (\<lambda>t. contains t (lower ''Movie Alpha'')) (split (lower ''movie a''))"
    by (simp add: list_all_iff)
  have a5: "40 \<le> keyword_score ''movie b'' (content_name movie_b)"
    using t4 k by auto
  have a6: "fst (find_best_content_match env_ok ''movie b'' shop) = Inr (Some movie_b)"
    using t4 i l o k2 by simp
  from a1 a2 a3 n a4 k a5 i l a6 show ?thesis
    by blast
qed

subsection \<open>C9: a hint without tokens\<close>

lemma blank_score: "split u = [] \<Longrightarrow> score u n = Inr (if u = n then 100 else 80)"
  by (simp add: score_def)

lemma loop_100:
  "split u = [] \<Longrightarrow> match_loop u cs (Some b, 100) = Inr (Some b, 100)"
  by (induction cs) (simp_all add: blank_score)

lemma loop_80:
  "split u = [] \<Longrightarrow> \<forall>c\<in>set cs. lower (content_name c) \<noteq> u \<Longrightarrow>
     match_loop u cs (Some b, 80) = Inr (Some b, 80)"
  by (induction cs) (auto simp: blank_score)

lemma loop_first_exact:
  "split u = [] \<Longrightarrow> \<forall>d\<in>set pre. lower (content_name d) \<noteq> u \<Longrightarrow> lower (content_name c) = u \<Longrightarrow>
     bs = 0 \<or> bs = 80 \<Longrightarrow>
     match_loop u (pre @ c # post) (bm, bs) = Inr (Some c, 100)"
proof (induction pre arbitrary: bm bs)
  case Nil
  then show ?case
    by (auto simp: blank_score loop_100)
next
  case (Cons x pre)
  have sx: "score u (lower (content_name x)) = Inr 80"
    using Cons.prems(1,2) by (auto simp: blank_score)
  from Cons.prems(4) show ?case
  proof
    assume "bs = 0"
    then have "match_loop u ((x # pre) @ c # post) (bm, bs)
        = match_loop u (pre @ c # post) (Some x, 80)"
      using sx by simp
    also have "\<dots> = Inr (Some c, 100)"
      using Cons.IH[of 80 "Some x"] Cons.prems by simp
    finally show ?thesis .
  next
    assume "bs = 80"
    then have "match_loop u ((x # pre) @ c # post) (bm, bs)
        = match_loop u (pre @ c # post) (bm, 80)"
      using sx by simp
    also have "\<dots> = Inr (Some c, 100)"
      using Cons.IH[of 80 bm] Cons.prems by simp
    finally show ?thesis .
  qed
qed

text \<open>
  Claim C9 as stated fails when a catalogue name equals the blank hint: that item scores
  100 and is returned in place of the first item of the listing.
\<close>

theorem blank_hint_counterexample:
  "split (lower '' '') = []
   \<and> match_loop (lower '' '') [movie_a, blank_named] (None, 0) = Inr (Some blank_named, 100)
   \<and> keyword_match '' '' [movie_a, blank_named] = Inr (Some blank_named)
   \<and> hd [movie_a, blank_named] = movie_a
   \<and> movie_a \<noteq> blank_named"
  by code_simp

text \<open>
  Claim C9, amended. For a hint without tokens and a listing that is not empty the score
  never divides by zero, whatever the name. If no name equals the hint after lower-casing,
  the first item of the listing is returned with score 80; otherwise the first item whose
  name equals the hint is returned, with score 100.
\<close>

theorem blank_hint_match:
  assumes "split (lower hint) = []" and "cs \<noteq> []"
  shows "(\<forall>n. \<exists>s. score (lower hint) n = Inr s)
    \<and> ((\<forall>c\<in>set cs. lower (content_name c) \<noteq> lower hint) \<longrightarrow>
          match_loop (lower hint) cs (None, 0) = Inr (Some (hd cs), 80)
          \<and> keyword_match hint cs = Inr (Some (hd cs)))
    \<and> (\<forall>pre c post. cs = pre @ c # post \<and> lower (content_name c) = lower hint
            \<and> (\<forall>d\<in>set pre. lower (content_name d) \<noteq> lower hint) \<longrightarrow>
          match_loop (lower hint) cs (None, 0) = Inr (Some c, 100)
          \<and> keyword_match hint cs = Inr (Some c))"
proof -
  have 1: "\<forall>n. \<exists>s. score (lower hint) n = Inr s"
    using score_total by blast
  have 2: "match_loop (lower hint) cs (None, 0) = Inr (Some (hd cs), 80)
          \<and> keyword_match hint cs = Inr (Some (hd cs))"
    if h: "\<forall>c\<in>set cs. lower (content_name c) \<noteq> lower hint"
  proof -
    from assms(2) obtain x xs where cs: "cs = x # xs"
      by (cases cs) auto
    have "score (lower hint) (lower (content_name x)) = Inr 80"
      using h cs assms(1) by (auto simp: blank_score)
    then have "match_loop (lower hint) cs (None, 0) = match_loop (lower hint) xs (Some x, 80)"
      using cs by simp
    also have "\<dots> = Inr (Some x, 80)"
      using loop_80[OF assms(1), of xs x] h cs by simp
    finally have m: "match_loop (lower hint) cs (None, 0) = Inr (Some (hd cs), 80)"
      using cs by simp
    then show ?thesis
      using assms(2) by (simp add: keyword_match_def)
  qed
  have 3: "match_loop (lower hint) cs (None, 0) = Inr (Some c, 100)
          \<and> keyword_match hint cs = Inr (Some c)"
    if h: "cs = pre @ c # post \<and> lower (content_name c) = lower hint
            \<and> (\<forall>d\<in>set pre. lower (content_name d) \<noteq> lower hint)" for pre c post
  proof -
    have m: "match_loop (lower hint) cs (None, 0) = Inr (Some c, 100)"
      using loop_first_exact[OF assms(1), of pre c 0 post None] h by simp
    then show ?thesis
      using assms(2) by (simp add: keyword_match_def)
  qed
  from 1 2 3 show ?thesis
    by blast
qed

theorem blank_hint_match_witness:
  "split (lower '' '') = [] \<and> [movie_a, movie_b] \<noteq> []
   \<and> list_all (\<lambda>c. lower (content_name c) \<noteq> lower '' '') [movie_a, movie_b]
   \<and> match_loop (lower '' '') [movie_a, movie_b] (None, 0) = Inr (Some movie_a, 80)
   \<and> keyword_match '' '' [movie_a, movie_b] = Inr (Some movie_a)"
proof -
  have s: "split (lower '' '') = []"
    by code_simp
  have n: "[movie_a, movie_b] \<noteq> []"
    by simp
  have d: "\<forall>c\<in>set [movie_a, movie_b]. lower (content_name c) \<noteq> lower '' ''"
    by code_simp
  have d': "list_all (\<lambda>c. lower (content_name c) \<noteq> lower '' '') [movie_a, movie_b]"
    using d by (simp add: list_all_iff)
  have h: "hd [movie_a, movie_b] = movie_a"
    by simp
  from blank_hint_match[OF s n] d have
    "match_loop (lower '' '') [movie_a, movie_b] (None, 0) = Inr (Some movie_a, 80)
     \<and> keyword_match '' '' [movie_a, movie_b] = Inr (Some movie_a)"
    unfolding h by blast
  with s n d' show ?thesis
    by blast
qed

end
